theory Spec2Isabelle
  imports Main "HOL-Library.Sublist"
begin

section \<open>Text\<close>

text \<open>
  A Python \<open>str\<close> is a sequence of Unicode code points, and the program tells code points
  beyond ASCII apart (the no-break space U+00A0, the Unicode white space matched by
  \<open>\s\<close> and removed by \<open>strip\<close>, the line boundaries of \<open>splitlines\<close>). A text is
  therefore a list of code points, each a natural number; \<open>str\<close> gives the text of an
  ASCII literal.
\<close>

type_synonym ustring = "nat list"

definition str :: "string \<Rightarrow> ustring" where
  "str s = map of_char s"

definition LF :: nat where "LF = 10"
definition CR :: nat where "CR = 13"
definition NBSP :: nat where "NBSP = 160"

text \<open>
  \<open>str.isspace\<close> of one code point, which is also what \<open>\s\<close> matches in a \<open>str\<close>
  pattern and what \<open>str.strip()\<close> removes: U+0009..U+000D, U+001C..U+0020, U+0085,
  U+00A0, U+1680, U+2000..U+200A, U+2028, U+2029, U+202F, U+205F, U+3000.
\<close>

definition is_space :: "nat \<Rightarrow> bool" where
  "is_space c \<longleftrightarrow>
     (9 \<le> c \<and> c \<le> 13) \<or> (28 \<le> c \<and> c \<le> 32) \<or> c = 133 \<or> c = 160 \<or> c = 5760 \<or>
     (8192 \<le> c \<and> c \<le> 8202) \<or> c = 8232 \<or> c = 8233 \<or> c = 8239 \<or> c = 8287 \<or> c = 12288"

text \<open>\<open>s.strip()\<close>: white space removed at both ends.\<close>

definition strip :: "ustring \<Rightarrow> ustring" where
  "strip s = rev (dropWhile is_space (rev (dropWhile is_space s)))"

text \<open>
  The line boundaries of \<open>str.splitlines\<close>: LF, VT, FF, CR, FS, GS, RS, NEL, U+2028,
  U+2029; CR LF counts as one boundary.
\<close>

definition is_linebreak :: "nat \<Rightarrow> bool" where
  "is_linebreak c \<longleftrightarrow> c \<in> {10, 11, 12, 13, 28, 29, 30, 133, 8232, 8233}"

text \<open>\<open>s.splitlines(True)\<close>: the lines of \<open>s\<close>, each with its line boundary kept.\<close>

fun splitlines :: "ustring \<Rightarrow> ustring list" where
  "splitlines [] = []"
| "splitlines (c # cs) =
     (if c = CR then
        (case cs of
           [] \<Rightarrow> [[c]]
         | d # ds \<Rightarrow> if d = LF then [c, d] # splitlines ds else [c] # splitlines cs)
      else if is_linebreak c then [c] # splitlines cs
      else (case splitlines cs of [] \<Rightarrow> [[c]] | l # ls \<Rightarrow> (c # l) # ls))"

text \<open>
  \<open>s.replace(old, new)\<close> for a non-empty \<open>old\<close> (the program's only call passes the
  comment marker): the occurrences of \<open>old\<close> are found from the left, without overlap,
  and each is replaced.
\<close>

fun replace :: "ustring \<Rightarrow> ustring \<Rightarrow> ustring \<Rightarrow> ustring" where
  "replace old new [] = []"
| "replace old new (c # cs) =
     (if prefix old (c # cs) then new @ replace old new (drop (length old - 1) cs)
      else c # replace old new cs)"

text \<open>
  \<open>s.split(sep)\<close> for a non-empty \<open>sep\<close>: the chunks between the occurrences of \<open>sep\<close>,
  found from the left without overlap. The result is never empty; the last case of the
  second equation is there for totality only.
\<close>

fun split :: "ustring \<Rightarrow> ustring \<Rightarrow> ustring list" where
  "split sep [] = [[]]"
| "split sep (c # cs) =
     (if prefix sep (c # cs) then [] # split sep (drop (length sep - 1) cs)
      else (case split sep cs of [] \<Rightarrow> [[c]] | ch # chs \<Rightarrow> (c # ch) # chs))"

section \<open>Text Normalizer: comments\<close>

definition COMMENT_MARKER :: ustring where
  "COMMENT_MARKER = str ''#!#comment:''"

text \<open>
  The body of the loop of \<open>fix_markdown_comments\<close> for a chunk met while \<open>inside\<close> is
  true: what it appends to \<open>out\<close>.
\<close>

definition comment_chunk :: "ustring \<Rightarrow> ustring list" where
  "comment_chunk chunk =
     (if LF \<in> set chunk then
        (let lines = splitlines chunk;
             lines = (if lines \<noteq> [] \<and> strip (hd lines) = [] then tl lines else lines)
         in map (\<lambda>l. COMMENT_MARKER @ l) lines)
      else [str ''<!--'', chunk, str ''-->''])"

text \<open>
  The loop of \<open>fix_markdown_comments\<close> over the chunks: the flag \<open>inside\<close> is passed
  along, and the result is what the loop appends to \<open>out\<close>.
\<close>

fun comment_loop :: "bool \<Rightarrow> ustring list \<Rightarrow> ustring list" where
  "comment_loop inside [] = []"
| "comment_loop inside (chunk # chunks) =
     (if \<not> inside then [chunk] @ comment_loop True chunks
      else comment_chunk chunk @ comment_loop False chunks)"

definition fix_markdown_comments :: "ustring \<Rightarrow> ustring" where
  "fix_markdown_comments markdown_contents =
     concat (comment_loop False (split (str ''%%'') markdown_contents))"

definition restore_comments :: "ustring \<Rightarrow> ustring" where
  "restore_comments org_contents =
     concat (map (replace COMMENT_MARKER (str ''# '')) (splitlines org_contents))"

section \<open>Regular expressions\<close>

text \<open>
  The patterns of the program are built from literals, character classes under a greedy
  \<open>*\<close> or \<open>+\<close>, and \<open>.*?\<close>. Each piece is a matcher in continuation-passing style:
  it takes the matcher \<open>k\<close> of what follows in the pattern and the text at the current
  position, and tries its alternatives in the order of Python's backtracking engine
  (the longest run first for a greedy repetition, the shortest first for a lazy one),
  keeping the first one under which \<open>k\<close> succeeds. A repetition returns the text it
  matched, paired with the result of \<open>k\<close>; the last continuation \<open>Some\<close> returns the
  text left after the match.
\<close>

fun lit :: "ustring \<Rightarrow> (ustring \<Rightarrow> 'a option) \<Rightarrow> ustring \<Rightarrow> 'a option" where
  "lit [] k s = k s"
| "lit (p # ps) k [] = None"
| "lit (p # ps) k (c # cs) = (if c = p then lit ps k cs else None)"

fun star_greedy ::
  "(nat \<Rightarrow> bool) \<Rightarrow> (ustring \<Rightarrow> 'a option) \<Rightarrow> ustring \<Rightarrow> (ustring \<times> 'a) option" where
  "star_greedy P k [] = map_option (Pair []) (k [])"
| "star_greedy P k (c # cs) =
     (if P c then
        (case star_greedy P k cs of
           Some (g, r) \<Rightarrow> Some (c # g, r)
         | None \<Rightarrow> map_option (Pair []) (k (c # cs)))
      else map_option (Pair []) (k (c # cs)))"

definition plus_greedy ::
  "(nat \<Rightarrow> bool) \<Rightarrow> (ustring \<Rightarrow> 'a option) \<Rightarrow> ustring \<Rightarrow> (ustring \<times> 'a) option" where
  "plus_greedy P k s =
     (case s of
        [] \<Rightarrow> None
      | c # cs \<Rightarrow>
          if P c then map_option (\<lambda>(g, r). (c # g, r)) (star_greedy P k cs) else None)"

fun star_lazy ::
  "(nat \<Rightarrow> bool) \<Rightarrow> (ustring \<Rightarrow> 'a option) \<Rightarrow> ustring \<Rightarrow> (ustring \<times> 'a) option" where
  "star_lazy P k [] = map_option (Pair []) (k [])"
| "star_lazy P k (c # cs) =
     (case k (c # cs) of
        Some r \<Rightarrow> Some ([], r)
      | None \<Rightarrow> if P c then map_option (\<lambda>(g, r). (c # g, r)) (star_lazy P k cs) else None)"

text \<open>The pattern \<open>.\<close> without \<open>DOTALL\<close>: any code point but the line feed.\<close>

definition dot :: "nat \<Rightarrow> bool" where
  "dot c \<longleftrightarrow> c \<noteq> LF"

text \<open>
  A match object is the list of its groups, group 0 (the whole match) first. A compiled
  pattern is a function that tries to match at the start of a text.
\<close>

type_synonym re_match = "ustring list"

definition group :: "re_match \<Rightarrow> nat \<Rightarrow> ustring" where
  "group m i = m ! i"

text \<open>The text matched, given the text \<open>s\<close> at the start of the match and the text left.\<close>

definition matched :: "ustring \<Rightarrow> ustring \<Rightarrow> ustring" where
  "matched s rest = take (length s - length rest) s"

text \<open>
  \<open>pattern.sub(repl, text)\<close> with a function \<open>repl\<close>: the text is scanned from the left;
  where the pattern matches, the match is replaced and the scan goes on after it;
  elsewhere one code point is copied. None of the program's patterns matches the empty
  text, so a match is at least one code point long.
\<close>

fun re_sub :: "(ustring \<Rightarrow> re_match option) \<Rightarrow> (re_match \<Rightarrow> ustring) \<Rightarrow> ustring \<Rightarrow> ustring" where
  "re_sub re repl [] = []"
| "re_sub re repl (c # cs) =
     (case re (c # cs) of
        None \<Rightarrow> c # re_sub re repl cs
      | Some m \<Rightarrow> repl m @ re_sub re repl (drop (length (group m 0) - 1) cs))"

text \<open>\<open>EMBED_RE = !\[\[([^\]|]+)(?:\|[^\]]*)?\]\]\<close>\<close>

definition EMBED_RE :: "ustring \<Rightarrow> re_match option" where
  "EMBED_RE s =
     (case lit (str ''![['')
             (plus_greedy (\<lambda>c. c \<notin> set (str '']|''))
                (\<lambda>s2. case lit (str ''|'')
                             (star_greedy (\<lambda>c. c \<notin> set (str '']'')) (lit (str '']]'') Some)) s2 of
                         Some (hint, rest) \<Rightarrow> Some rest
                       | None \<Rightarrow> lit (str '']]'') Some s2)) s of
        None \<Rightarrow> None
      | Some (g1, rest) \<Rightarrow> Some [matched s rest, g1])"

text \<open>\<open>WIKI_DESC_RE = \[\[([^\]|]+)\|([^\]]+)\]\]\<close>\<close>

definition WIKI_DESC_RE :: "ustring \<Rightarrow> re_match option" where
  "WIKI_DESC_RE s =
     (case lit (str ''[['')
             (plus_greedy (\<lambda>c. c \<notin> set (str '']|''))
                (lit (str ''|'')
                   (plus_greedy (\<lambda>c. c \<notin> set (str '']'')) (lit (str '']]'') Some)))) s of
        None \<Rightarrow> None
      | Some (g1, g2, rest) \<Rightarrow> Some [matched s rest, g1, g2])"

text \<open>\<open>WIKI_SIMPLE_RE = \[\[([^\]|\[]+)\]\]\<close>\<close>

definition WIKI_SIMPLE_RE :: "ustring \<Rightarrow> re_match option" where
  "WIKI_SIMPLE_RE s =
     (case lit (str ''[['')
             (plus_greedy (\<lambda>c. c \<notin> set (str '']|['')) (lit (str '']]'') Some)) s of
        None \<Rightarrow> None
      | Some (g1, rest) \<Rightarrow> Some [matched s rest, g1])"

text \<open>\<open>FILE_LINK_RE = \[\[file:(.*?)\]\[(.*?)\]\]\<close>\<close>

definition FILE_LINK_RE :: "ustring \<Rightarrow> re_match option" where
  "FILE_LINK_RE s =
     (case lit (str ''[[file:'')
             (star_lazy dot
                (lit (str '']['') (star_lazy dot (lit (str '']]'') Some)))) s of
        None \<Rightarrow> None
      | Some (g1, g2, rest) \<Rightarrow> Some [matched s rest, g1, g2])"

text \<open>\<open>BARE_LINK_RE = \[\[([^\]|\[]+)\]\]\<close>\<close>

definition BARE_LINK_RE :: "ustring \<Rightarrow> re_match option" where
  "BARE_LINK_RE s =
     (case lit (str ''[['')
             (plus_greedy (\<lambda>c. c \<notin> set (str '']|['')) (lit (str '']]'') Some)) s of
        None \<Rightarrow> None
      | Some (g1, rest) \<Rightarrow> Some [matched s rest, g1])"

text \<open>
  The pattern \<open>[\u00A0\s]+\<close> of the two name normalisations, and the pattern
  \<open>[\u00A0]\<close> of the two label normalisations.
\<close>

definition WS_RUN_RE :: "ustring \<Rightarrow> re_match option" where
  "WS_RUN_RE s =
     (case plus_greedy (\<lambda>c. c = NBSP \<or> is_space c) Some s of
        None \<Rightarrow> None
      | Some (g, rest) \<Rightarrow> Some [matched s rest])"

definition NBSP_RE :: "ustring \<Rightarrow> re_match option" where
  "NBSP_RE s =
     (case s of
        [] \<Rightarrow> None
      | c # cs \<Rightarrow> if c = NBSP then Some [matched s cs] else None)"

section \<open>Link Rewriter, pass 1\<close>

definition embed_repl :: "re_match \<Rightarrow> ustring" where
  "embed_repl m = (let fname = group m 1 in str ''[[file:../attachments/'' @ fname @ str '']]'')"

text \<open>
  The test \<open>re.match(r"https?://|.*/|.*\..*", page)\<close> of \<open>simple_repl\<close>, of which only
  the truth value is used: one of the three alternatives matches at the start of the
  page.
\<close>

definition url_or_path :: "ustring \<Rightarrow> bool" where
  "url_or_path page \<longleftrightarrow>
     lit (str ''http'')
       (\<lambda>s. case lit (str ''s'') (lit (str ''://'') Some) s of
              Some r \<Rightarrow> Some r
            | None \<Rightarrow> lit (str ''://'') Some s) page \<noteq> None \<or>
     star_greedy dot (lit (str ''/'') Some) page \<noteq> None \<or>
     star_greedy dot (lit (str ''.'') (star_greedy dot Some)) page \<noteq> None"

definition simple_repl :: "re_match \<Rightarrow> ustring" where
  "simple_repl m =
     (let page = group m 1
      in if url_or_path page then group m 0
         else str ''[[file:'' @ page @ str ''.org]['' @ page @ str '']]'')"

definition fix_links :: "ustring \<Rightarrow> ustring" where
  "fix_links org =
     (let org = re_sub EMBED_RE embed_repl org;
          org = re_sub WIKI_DESC_RE
                  (\<lambda>m. str ''[[file:'' @ group m 1 @ str ''.org]['' @ group m 2 @ str '']]'') org;
          org = re_sub WIKI_SIMPLE_RE simple_repl org
      in org)"

section \<open>Paths\<close>

text \<open>
  \<open>pathlib.PurePosixPath(raw).name\<close>: the last component of the path that is neither
  empty nor \<open>.\<close>, and the empty text when there is none.
\<close>

definition path_name :: "ustring \<Rightarrow> ustring" where
  "path_name raw =
     (case filter (\<lambda>p. p \<noteq> [] \<and> p \<noteq> str ''.'') (split (str ''/'') raw) of
        [] \<Rightarrow> []
      | p # ps \<Rightarrow> last (p # ps))"

text \<open>\<open>name.rfind(".")\<close>, with \<open>None\<close> for Python's \<open>-1\<close>.\<close>

definition rfind_dot :: "ustring \<Rightarrow> nat option" where
  "rfind_dot name =
     (if of_char CHR ''.'' \<in> set name
      then Some (length name - 1 - length (takeWhile (\<lambda>c. c \<noteq> of_char CHR ''.'') (rev name)))
      else None)"

text \<open>
  \<open>suffix\<close> and \<open>stem\<close> of a file name, as \<open>pathlib\<close> computes them up to Python 3.13:
  the name is cut at its last dot when that dot is neither its first nor its last
  code point.
\<close>

definition name_suffix :: "ustring \<Rightarrow> ustring" where
  "name_suffix name =
     (case rfind_dot name of
        None \<Rightarrow> []
      | Some i \<Rightarrow> if 0 < i \<and> i < length name - 1 then drop i name else [])"

definition name_stem :: "ustring \<Rightarrow> ustring" where
  "name_stem name =
     (case rfind_dot name of
        None \<Rightarrow> name
      | Some i \<Rightarrow> if 0 < i \<and> i < length name - 1 then take i name else name)"

definition path_stem :: "ustring \<Rightarrow> ustring" where
  "path_stem raw = name_stem (path_name raw)"

section \<open>Identifier Registry\<close>

text \<open>\<open>re.sub(r"[\u00A0\s]+", " ", stem).strip()\<close>, the key of a document name.\<close>

definition normalize_key :: "ustring \<Rightarrow> ustring" where
  "normalize_key stem = strip (re_sub WS_RUN_RE (\<lambda>m. str '' '') stem)"

text \<open>\<open>re.sub(r"[\u00A0]", " ", label)\<close>\<close>

definition nbsp_to_space :: "ustring \<Rightarrow> ustring" where
  "nbsp_to_space label = re_sub NBSP_RE (\<lambda>m. str '' '') label"

text \<open>
  The name of \<open>path.with_suffix(".org")\<close> for a file name with a non-empty suffix, as it
  is called in the walk.
\<close>

definition with_suffix_org :: "ustring \<Rightarrow> ustring" where
  "with_suffix_org name =
     take (length name - length (name_suffix name)) name @ str ''.org''"

text \<open>
  The first loop of \<open>convert_directory\<close>, as far as it fills the dictionary \<open>nodes\<close>.
  The walk is the list of the files met, in walk order, each by its file name and
  paired with the value that \<open>str(uuid.uuid4()).upper()\<close> yields for it when the loop
  reaches that line.
\<close>

fun assign_nodes ::
  "(ustring \<rightharpoonup> ustring) \<Rightarrow> (ustring \<times> ustring) list \<Rightarrow> (ustring \<rightharpoonup> ustring)" where
  "assign_nodes nodes [] = nodes"
| "assign_nodes nodes ((name, nid) # walk) =
     (if name = str ''.DS_Store'' then assign_nodes nodes walk
      else if name_suffix name \<noteq> str ''.md'' then assign_nodes nodes walk
      else
        (let org_rel = with_suffix_org name;
             key = normalize_key (name_stem org_rel)
         in assign_nodes (nodes(key \<mapsto> nid)) walk))"

section \<open>Link Rewriter, pass 2\<close>

text \<open>
  The two replacement functions of the relink loop. \<open>nodes.get\<close> yields \<open>None\<close> or an
  identifier, and the test \<open>if nid\<close> fails for \<open>None\<close> and for the empty text.
\<close>

definition repl_file :: "(ustring \<rightharpoonup> ustring) \<Rightarrow> re_match \<Rightarrow> ustring" where
  "repl_file nodes m =
     (let raw = group m 1;
          label = group m 2;
          label = nbsp_to_space label;
          stem = path_stem raw;
          norm = normalize_key stem
      in case nodes norm of
           None \<Rightarrow> group m 0
         | Some nid \<Rightarrow>
             if nid \<noteq> [] then str ''[[id:'' @ nid @ str '']['' @ label @ str '']]''
             else group m 0)"

definition repl_bare :: "(ustring \<rightharpoonup> ustring) \<Rightarrow> re_match \<Rightarrow> ustring" where
  "repl_bare nodes m =
     (let name_norm = nbsp_to_space (group m 1);
          key = strip name_norm
      in case nodes key of
           None \<Rightarrow> group m 0
         | Some nid \<Rightarrow>
             if nid \<noteq> [] then str ''[[id:'' @ nid @ str '']['' @ name_norm @ str '']]''
             else group m 0)"

text \<open>The body of the relink loop on the text of one output file.\<close>

definition relink :: "(ustring \<rightharpoonup> ustring) \<Rightarrow> ustring \<Rightarrow> ustring" where
  "relink nodes text =
     (let text = re_sub FILE_LINK_RE (repl_file nodes) text;
          text = re_sub BARE_LINK_RE (repl_bare nodes) text
      in text)"

section \<open>Identifier stamping\<close>

text \<open>
  The files are a map from paths to their text; the encoding is UTF-8. A Python text
  can hold lone surrogate code points (U+D800..U+DFFF; \<open>os.fsdecode\<close> puts them into
  the name of a file whose bytes are not UTF-8), and such a text cannot be encoded:
  writing it raises \<open>UnicodeEncodeError\<close>. A stored text with a surrogate stands for a
  file whose bytes are not valid UTF-8, which cannot be read.
\<close>

datatype error = FileNotFoundError | UnicodeDecodeError | UnicodeEncodeError

definition is_surrogate :: "nat \<Rightarrow> bool" where
  "is_surrogate c \<longleftrightarrow> 55296 \<le> c \<and> c \<le> 57343"

definition encodable :: "ustring \<Rightarrow> bool" where
  "encodable s = list_all (\<lambda>c. \<not> is_surrogate c) s"

text \<open>
  \<open>read_text\<close> opens a file in text mode, which turns the line ends CR LF and CR into
  LF; it raises when the file is missing or cannot be decoded.
\<close>

fun universal_newlines :: "ustring \<Rightarrow> ustring" where
  "universal_newlines [] = []"
| "universal_newlines (c # cs) =
     (if c = CR then
        (case cs of
           [] \<Rightarrow> [LF]
         | d # ds \<Rightarrow> if d = LF then LF # universal_newlines ds else LF # universal_newlines cs)
      else c # universal_newlines cs)"

definition read_text :: "(ustring \<rightharpoonup> ustring) \<Rightarrow> ustring \<Rightarrow> error + ustring" where
  "read_text files path =
     (case files path of
        None \<Rightarrow> Inl FileNotFoundError
      | Some stored \<Rightarrow>
          if encodable stored then Inr (universal_newlines stored) else Inl UnicodeDecodeError)"

text \<open>
  The calls of \<open>f.write\<close> on a file opened for writing in text mode, one after the
  other: a text that cannot be encoded raises, and what was written before it stays in
  the file, which the \<open>with\<close> block closes. On a POSIX system the text is stored as it
  is.
\<close>

fun write_texts :: "ustring \<Rightarrow> ustring list \<Rightarrow> error option \<times> ustring" where
  "write_texts written [] = (None, written)"
| "write_texts written (s # ss) =
     (if encodable s then write_texts (written @ s) ss
      else (Some UnicodeEncodeError, written))"

text \<open>
  \<open>add_node_id\<close>: the exception it raises, if any, and the files it leaves. Opening
  the file for writing empties it.
\<close>

definition add_node_id ::
  "(ustring \<rightharpoonup> ustring) \<Rightarrow> ustring \<Rightarrow> ustring \<Rightarrow> error option \<times> (ustring \<rightharpoonup> ustring)" where
  "add_node_id files org_file node_id =
     (case read_text files org_file of
        Inl e \<Rightarrow> (Some e, files)
      | Inr content \<Rightarrow>
          (case write_texts []
                  [str '':PROPERTIES:\<newline>'',
                   str '':ID: '' @ node_id @ str ''\<newline>'',
                   str '':END:\<newline>'',
                   str ''#+title: '' @ path_stem org_file @ str ''\<newline>\<newline>'',
                   content] of
             (raised, written) \<Rightarrow> (raised, files(org_file \<mapsto> written))))"

section \<open>Notions used in the statements\<close>

text \<open>
  The lines of a text that \<open>splitlines\<close> returns: each but the last ends with a line
  boundary.
\<close>

definition lines_ok :: "ustring list \<Rightarrow> bool" where
  "lines_ok ls \<longleftrightarrow> (\<forall>l\<in>set (butlast ls). l \<noteq> [] \<and> is_linebreak (last l))"

text \<open>\<open>sep.join(chunks)\<close>\<close>

fun join :: "ustring \<Rightarrow> ustring list \<Rightarrow> ustring" where
  "join sep [] = []"
| "join sep [x] = x"
| "join sep (x # y # ys) = x @ sep @ join sep (y # ys)"

text \<open>
  The files of the walk that the first loop of \<open>convert_directory\<close> registers: those it
  neither skips by name nor copies as an asset.
\<close>

definition is_markdown :: "ustring \<Rightarrow> bool" where
  "is_markdown name \<longleftrightarrow> name \<noteq> str ''.DS_Store'' \<and> name_suffix name = str ''.md''"

text \<open>The two forms of an embed: without and with a size hint.\<close>

definition embed_syntax :: "ustring \<Rightarrow> ustring option \<Rightarrow> ustring" where
  "embed_syntax name hint =
     (case hint of
        None \<Rightarrow> str ''![['' @ name @ str '']]''
      | Some h \<Rightarrow> str ''![['' @ name @ str ''|'' @ h @ str '']]'')"

text \<open>The part of a text before its first line feed, which is as far as \<open>.\<close> can match.\<close>

definition first_line :: "ustring \<Rightarrow> ustring" where
  "first_line s = takeWhile (\<lambda>c. c \<noteq> LF) s"

text \<open>
  A text has a link when the file-link pattern or the bare-link pattern of pass 2 matches
  at one of its positions.
\<close>

fun has_link :: "ustring \<Rightarrow> bool" where
  "has_link [] = False"
| "has_link (c # cs) \<longleftrightarrow>
     FILE_LINK_RE (c # cs) \<noteq> None \<or> BARE_LINK_RE (c # cs) \<noteq> None \<or> has_link cs"

text \<open>
  A text has two opening brackets in a row: the start of every pattern of the two
  passes but the exclamation mark of \<open>EMBED_RE\<close>.
\<close>

fun double_bracket :: "ustring \<Rightarrow> bool" where
  "double_bracket (c # d # cs) \<longleftrightarrow>
     (c = of_char CHR ''['' \<and> d = of_char CHR ''['') \<or> double_bracket (d # cs)"
| "double_bracket cs \<longleftrightarrow> False"

text \<open>
  The three forms of a link in a Markdown document: the wiki link \<open>[[page]]\<close>, the
  labeled wiki link \<open>[[page|label]]\<close>, and the embed \<open>![[name]]\<close> or \<open>![[name|size]]\<close>.
\<close>

datatype link = Wiki ustring | Labeled ustring ustring | Embed ustring "ustring option"

fun link_source :: "link \<Rightarrow> ustring" where
  "link_source (Wiki page) = str ''[['' @ page @ str '']]''"
| "link_source (Labeled page label) = str ''[['' @ page @ str ''|'' @ label @ str '']]''"
| "link_source (Embed name hint) = embed_syntax name hint"

text \<open>
  A link is well formed when its parts are not empty and have none of the code points
  that end them in the patterns: no bracket and no bar in a page, no bracket in a label,
  no closing bracket, no bar and no two opening brackets in a row in the name of an
  embed, no closing bracket in its size hint.
\<close>

fun well_formed :: "link \<Rightarrow> bool" where
  "well_formed (Wiki page) \<longleftrightarrow> page \<noteq> [] \<and> set page \<inter> set (str ''[]|'') = {}"
| "well_formed (Labeled page label) \<longleftrightarrow>
     page \<noteq> [] \<and> set page \<inter> set (str ''[]|'') = {} \<and>
     label \<noteq> [] \<and> set label \<inter> set (str ''[]'') = {}"
| "well_formed (Embed name hint) \<longleftrightarrow>
     name \<noteq> [] \<and> set name \<inter> set (str '']|'') = {} \<and> \<not> double_bracket name \<and>
     (case hint of None \<Rightarrow> True | Some h \<Rightarrow> set h \<inter> set (str '']'') = {})"

text \<open>
  The text that stands for a link after pass 1, in the statements about a whole
  document: a file reference for a labeled link, for an embed, and for a wiki link whose
  page does not look like a URL or a path; the link itself otherwise.
\<close>

fun link_pass1 :: "link \<Rightarrow> ustring" where
  "link_pass1 (Wiki page) =
     (if url_or_path page then str ''[['' @ page @ str '']]''
      else str ''[[file:'' @ page @ str ''.org]['' @ page @ str '']]'')"
| "link_pass1 (Labeled page label) = str ''[[file:'' @ page @ str ''.org]['' @ label @ str '']]''"
| "link_pass1 (Embed name hint) = str ''[[file:../attachments/'' @ name @ str '']]''"

fun is_embed :: "link \<Rightarrow> bool" where
  "is_embed (Embed name hint) = True"
| "is_embed l = False"

text \<open>
  Plain text before a link: it has no two opening brackets in a row, does not end with
  an opening bracket and, before a wiki link, does not end with the exclamation mark
  that would make the link an embed.
\<close>

definition clean_before :: "link \<Rightarrow> ustring \<Rightarrow> bool" where
  "clean_before l p \<longleftrightarrow>
     \<not> double_bracket p \<and>
     (p = [] \<or> last p \<noteq> of_char CHR ''['') \<and>
     (is_embed l \<or> p = [] \<or> last p \<noteq> of_char CHR ''!'')"

text \<open>
  A document as a list of links, each with the plain text before it; \<open>doc_source\<close> is its
  text, \<open>doc_pass1\<close> the same text with every link replaced by what stands for it after
  pass 1.
\<close>

fun doc_source :: "(ustring \<times> link) list \<Rightarrow> ustring" where
  "doc_source [] = []"
| "doc_source ((p, l) # d) = p @ link_source l @ doc_source d"

fun doc_pass1 :: "(ustring \<times> link) list \<Rightarrow> ustring" where
  "doc_pass1 [] = []"
| "doc_pass1 ((p, l) # d) = p @ link_pass1 l @ doc_pass1 d"

definition doc_ok :: "(ustring \<times> link) list \<Rightarrow> bool" where
  "doc_ok d = list_all (\<lambda>(p, l). clean_before l p \<and> well_formed l) d"

section \<open>Comment restoration\<close>
lemma replace_past_char:
  assumes "b \<notin> set old" "old \<noteq> []"
  shows "replace old new (l @ b # rest) = replace old new (l @ [b]) @ replace old new rest"
  using assms
proof (induction l rule: length_induct)
  case (1 l)
  have nb: "\<not> prefix old (b # xs)" for xs
    using 1(2,3) by (cases old) (auto)
  show ?case
  proof (cases l)
    case Nil
    then show ?thesis using nb by simp
  next
    case (Cons c l')
    show ?thesis
    proof (cases "prefix old (c # l' @ b # rest)")
      case True
      then obtain zs where zs: "c # l' @ b # rest = old @ zs"
        by (auto simp: prefix_def)
      have len: "length old \<le> length (c # l')"
      proof (rule ccontr)
        assume "\<not> length old \<le> length (c # l')"
        then have "length (c # l') < length old" by simp
        then have lt: "length (c # l') < length old" by simp
        have "(old @ zs) ! length (c # l') = old ! length (c # l')"
          using lt by (simp add: nth_append)
        moreover have "((c # l') @ b # rest) ! length (c # l') = b"
          by (rule nth_append_length)
        ultimately have "old ! length (c # l') = b" using zs by simp
        then show False using 1(2) lt nth_mem by metis
      qed
      then have p1: "prefix old (c # l')"
        using prefix_length_prefix[of old "(c # l') @ b # rest" "c # l'"] True by simp
      then have p2: "prefix old (c # l' @ [b])"
        using prefix_prefix[of old "c # l'" "[b]"] by simp
      have k: "length old - 1 \<le> length l'" using len by simp
      have sh: "length (drop (length old - 1) l') < length l"
        using Cons by simp
      show ?thesis
        using True p2 k 1(1)[rule_format, OF sh 1(2) 1(3)] Cons by simp
    next
      case False
      then have "\<not> prefix old (c # l' @ [b])"
        using prefix_prefix[of old "c # l' @ [b]" rest] by auto
      moreover have "length l' < length l" using Cons by simp
      ultimately show ?thesis
        using False 1(1)[rule_format, OF _ 1(2) 1(3), of l'] Cons by simp
    qed
  qed
qed

lemma marker_nonempty: "COMMENT_MARKER \<noteq> []"
  by (simp add: COMMENT_MARKER_def str_def)

lemma marker_no_linebreak: "is_linebreak b \<Longrightarrow> b \<notin> set COMMENT_MARKER"
  by (auto simp: COMMENT_MARKER_def str_def is_linebreak_def)

lemma not_prefix_foreign:
  "b \<notin> set old \<Longrightarrow> old \<noteq> [] \<Longrightarrow> \<not> prefix old (b # rest)"
  by (cases old) auto

lemma replace_short: "length s < length old \<Longrightarrow> replace old new s = s"
proof (induction s)
  case Nil
  then show ?case by simp
next
  case (Cons c s)
  then have "\<not> prefix old (c # s)"
    using prefix_length_le by fastforce
  with Cons show ?case by simp
qed

lemma concat_replace_lines:
  "lines_ok ls \<Longrightarrow>
   concat (map (replace COMMENT_MARKER new) ls) = replace COMMENT_MARKER new (concat ls)"
proof (induction ls)
  case Nil
  then show ?case by simp
next
  case (Cons l ls)
  show ?case
  proof (cases ls)
    case Nil
    then show ?thesis by simp
  next
    case (Cons l2 ls2)
    with Cons.prems have l: "l \<noteq> []" "is_linebreak (last l)" and ok: "lines_ok ls"
      by (auto simp: lines_ok_def)
    obtain w b where wb: "l = w @ [b]" "is_linebreak b"
      using l by (metis append_butlast_last_id)
    have "replace COMMENT_MARKER new (concat (l # ls)) =
          replace COMMENT_MARKER new (w @ b # concat ls)"
      using wb by simp
    also have "\<dots> = replace COMMENT_MARKER new (w @ [b]) @ replace COMMENT_MARKER new (concat ls)"
      by (rule replace_past_char[OF marker_no_linebreak[OF wb(2)] marker_nonempty])
    finally show ?thesis
      using Cons.IH[OF ok] wb by simp
  qed
qed

lemma splitlines_shape:
  "concat (splitlines t) = t \<and> lines_ok (splitlines t) \<and> [] \<notin> set (splitlines t)"
proof (induction t rule: splitlines.induct)
  case 1
  then show ?case by (simp add: lines_ok_def)
next
  case (2 c cs)
  show ?case
  proof (cases "c = CR")
    case True
    show ?thesis
    proof (cases cs)
      case Nil
      then show ?thesis using True by (simp add: lines_ok_def)
    next
      case (Cons d ds)
      show ?thesis
      proof (cases "d = LF")
        case dLF: True
        then show ?thesis
          using True Cons 2(1)[OF True Cons dLF]
          by (auto simp: lines_ok_def is_linebreak_def LF_def CR_def)
      next
        case False
        then show ?thesis
          using True Cons 2(2)[OF True Cons False]
          by (auto simp: lines_ok_def is_linebreak_def LF_def CR_def)
      qed
    qed
  next
    case nCR: False
    show ?thesis
    proof (cases "is_linebreak c")
      case True
      then show ?thesis
        using nCR 2(3)[OF nCR True]
        by (auto simp: lines_ok_def)
    next
      case False
      then show ?thesis
        using nCR 2(4)[OF nCR False]
        by (cases "splitlines cs") (auto simp: lines_ok_def split: if_splits)
    qed
  qed
qed

lemma restore_comments_replace:
  "restore_comments t = replace COMMENT_MARKER (str ''# '') t"
  using concat_replace_lines[of "splitlines t"] splitlines_shape[of t]
  by (simp add: restore_comments_def)

lemma marker_length: "length COMMENT_MARKER = 11"
  by (simp add: COMMENT_MARKER_def str_def)

lemma marker_colon_last: "k < 10 \<Longrightarrow> COMMENT_MARKER ! k \<noteq> 58" 
proof -
  assume "k < 10"
  then have "k < length (take 10 COMMENT_MARKER)"
    using marker_length by simp
  then have "take 10 COMMENT_MARKER ! k \<in> set (take 10 COMMENT_MARKER)"
    by (rule nth_mem)
  then have "COMMENT_MARKER ! k \<in> set (take 10 COMMENT_MARKER)"
    using \<open>k < 10\<close> by simp
  then show ?thesis by (auto simp: COMMENT_MARKER_def str_def)
qed

lemma marker_last: "COMMENT_MARKER ! 10 = 58"
  by (simp add: COMMENT_MARKER_def str_def)

text \<open>The marker does not overlap a shifted copy of itself.\<close>

lemma marker_no_overlap:
  assumes "prefix COMMENT_MARKER (a @ COMMENT_MARKER @ b)" "a \<noteq> []"
  shows "prefix COMMENT_MARKER a"
proof (cases "length COMMENT_MARKER \<le> length a")
  case True
  then show ?thesis
    using prefix_length_prefix[of COMMENT_MARKER "a @ COMMENT_MARKER @ b" a] assms(1) by simp
next
  case False
  then have la: "length a \<le> 10" "0 < length a" using marker_length assms(2) by auto
  obtain zs where zs: "a @ COMMENT_MARKER @ b = COMMENT_MARKER @ zs"
    using assms(1) by (auto simp: prefix_def)
  have "(COMMENT_MARKER @ zs) ! 10 = COMMENT_MARKER ! 10"
    using marker_length by (simp add: nth_append)
  then have "(a @ COMMENT_MARKER @ b) ! 10 = COMMENT_MARKER ! 10"
    using zs by simp
  moreover have "(a @ COMMENT_MARKER @ b) ! 10 = COMMENT_MARKER ! (10 - length a)"
  proof -
    have "\<not> 10 < length a" using la by simp
    then have "(a @ COMMENT_MARKER @ b) ! 10 = (COMMENT_MARKER @ b) ! (10 - length a)"
      by (simp add: nth_append)
    moreover have "10 - length a < length COMMENT_MARKER"
      using marker_length by arith
    ultimately show ?thesis by (simp add: nth_append)
  qed
  ultimately have "COMMENT_MARKER ! (10 - length a) = 58"
    using marker_last by simp
  moreover have "10 - length a < 10" using la by simp
  ultimately show ?thesis using marker_colon_last by blast
qed

lemma replace_at_occurrence:
  "old \<noteq> [] \<Longrightarrow> replace old new (old @ b) = new @ replace old new b"
  by (cases old) simp_all

lemma replace_marker_occurrence:
  "replace COMMENT_MARKER new (a @ COMMENT_MARKER @ b) =
   replace COMMENT_MARKER new a @ new @ replace COMMENT_MARKER new b"
proof (induction a rule: length_induct)
  case (1 a)
  show ?case
  proof (cases a)
    case Nil
    show ?thesis using Nil replace_at_occurrence[OF marker_nonempty] by simp
  next
    case (Cons c a')
    show ?thesis
    proof (cases "prefix COMMENT_MARKER (a @ COMMENT_MARKER @ b)")
      case True
      then have pa: "prefix COMMENT_MARKER a"
        using marker_no_overlap Cons by blast
      then have k: "length COMMENT_MARKER - 1 \<le> length a'"
        using Cons prefix_length_le by fastforce
      have sh: "length (drop (length COMMENT_MARKER - 1) a') < length a"
        using Cons by simp
      show ?thesis
        using True pa k 1[rule_format, OF sh] Cons by simp
    next
      case False
      then have "\<not> prefix COMMENT_MARKER a"
        using prefix_prefix by blast
      moreover have "length a' < length a" using Cons by simp
      ultimately show ?thesis
        using False 1[rule_format, of a'] Cons by simp
    qed
  qed
qed

lemma replace_no_occurrence:
  "(\<forall>x y. t \<noteq> x @ old @ y) \<Longrightarrow> replace old new t = t"
proof (induction t)
  case Nil
  then show ?case by simp
next
  case (Cons c t)
  have "\<not> prefix old (c # t)"
  proof
    assume "prefix old (c # t)"
    then obtain zs where "c # t = [] @ old @ zs"
      by (auto simp: prefix_def)
    with Cons.prems show False by blast
  qed
  moreover have "\<forall>x y. t \<noteq> x @ old @ y"
  proof (intro allI notI)
    fix x y
    assume "t = x @ old @ y"
    then have "c # t = (c # x) @ old @ y" by simp
    with Cons.prems show False by blast
  qed
  ultimately show ?case using Cons.IH by simp
qed

text \<open>
  Claim C8, as amended. \<open>restore_comments\<close> replaces every occurrence of the marker by
  the comment prefix \<open># \<close>, wherever the occurrence stands in its line, and the text to
  the left and to the right of an occurrence is restored on its own; a text without
  the marker is returned as it is.
\<close>

theorem restore_comments_every_occurrence:
  "restore_comments (a @ COMMENT_MARKER @ b) =
     restore_comments a @ str ''# '' @ restore_comments b \<and>
   ((\<forall>x y. t \<noteq> x @ COMMENT_MARKER @ y) \<longrightarrow> restore_comments t = t)"
proof
  show "restore_comments (a @ COMMENT_MARKER @ b) =
        restore_comments a @ str ''# '' @ restore_comments b"
    by (simp add: restore_comments_replace replace_marker_occurrence)
  show "(\<forall>x y. t \<noteq> x @ COMMENT_MARKER @ y) \<longrightarrow> restore_comments t = t"
    using replace_no_occurrence[of t COMMENT_MARKER]
    by (simp add: restore_comments_replace)
qed

theorem restore_comments_every_occurrence_witness:
  "restore_comments (str ''- '' @ COMMENT_MARKER @ str ''note'') = str ''- # note'' \<and>
   restore_comments (str ''plain'') = str ''plain''"
proof -
  have no: "\<forall>x y. str ''plain'' \<noteq> x @ COMMENT_MARKER @ y"
  proof (intro allI notI)
    fix x y
    assume "str ''plain'' = x @ COMMENT_MARKER @ y"
    then have "length (str ''plain'') = length (x @ COMMENT_MARKER @ y)"
      by simp
    then show False
      by (simp add: str_def COMMENT_MARKER_def)
  qed
  have small: "restore_comments (str ''- '') = str ''- ''" "restore_comments (str ''note'') = str ''note''"
    by (simp_all add: restore_comments_def str_def COMMENT_MARKER_def CR_def is_linebreak_def)
  show ?thesis
    using restore_comments_every_occurrence[of "str ''- ''" "str ''note''" "str ''plain''"] no small
    by (simp add: str_def)
qed

text \<open>
  Claim C8 as stated fails: a marker that does not stand at the start of its line is
  replaced as well.
\<close>

theorem restore_comments_mid_line_counterexample:
  "restore_comments (str ''x #!#comment:y'') = str ''x # y'' \<and>
   restore_comments (str ''x #!#comment:y'') \<noteq> str ''x #!#comment:y''"
  by (simp add: restore_comments_def str_def COMMENT_MARKER_def CR_def is_linebreak_def)

section \<open>Comment regions\<close>

lemma split_nonempty: "split sep t \<noteq> []"
  by (induction sep t rule: split.induct) (auto split: list.splits)

lemma join_Cons_hd: "join sep ((c # ch) # chs) = c # join sep (ch # chs)"
  by (cases chs) simp_all

lemma join_split: "sep \<noteq> [] \<Longrightarrow> join sep (split sep t) = t"
proof (induction sep t rule: split.induct)
  case (1 sep)
  then show ?case by simp
next
  case (2 sep c cs)
  show ?case
  proof (cases "prefix sep (c # cs)")
    case True
    then obtain zs where zs: "c # cs = sep @ zs"
      by (auto simp: prefix_def)
    obtain s ss where sep: "sep = s # ss"
      using 2(3) by (cases sep) auto
    have cs: "cs = ss @ zs" using zs sep by simp
    have d: "drop (length sep - 1) cs = zs"
      using cs sep by simp
    obtain x xs where sp: "split sep zs = x # xs"
      using split_nonempty[of sep zs] by (cases "split sep zs") auto
    have "join sep (split sep zs) = zs"
      using 2(1)[OF True 2(3)] d by simp
    then have j: "join sep ([] # split sep zs) = sep @ zs"
      using sp by simp
    have "split sep (c # cs) = [] # split sep zs"
      using True d by simp
    then show ?thesis using j zs by metis
  next
    case False
    obtain x xs where sp: "split sep cs = x # xs"
      using split_nonempty[of sep cs] by (cases "split sep cs") auto
    have "join sep (x # xs) = cs"
      using 2(2)[OF False 2(3)] sp by simp
    then show ?thesis
      using False sp by (simp add: join_Cons_hd)
  qed
qed

lemma comment_loop_snoc:
  "comment_loop inside (cs @ [c]) =
   comment_loop inside cs @ (if inside = even (length cs) then comment_chunk c else [c])"
  by (induction cs arbitrary: inside) auto

text \<open>
  Claim C9, as amended. The chunks are the spans of the text between the delimiters
  \<open>%%\<close> (joined by the delimiter they give the text back), so there is one chunk more
  than there are delimiters. The loop treats the chunks alternately as text and as
  comment, whatever their number: when the number of delimiters is odd, the trailing
  span after the last delimiter is rendered as a comment like any other comment span;
  when it is even, the trailing span is appended verbatim. The function is total: no
  operation in it can raise.
\<close>

theorem fix_markdown_comments_trailing_span:
  "join (str ''%%'') (split (str ''%%'') text) = text \<and>
   fix_markdown_comments text =
     concat (comment_loop False (butlast (split (str ''%%'') text))) @
     (if odd (length (split (str ''%%'') text) - 1)
      then concat (comment_chunk (last (split (str ''%%'') text)))
      else last (split (str ''%%'') text))"
proof
  show "join (str ''%%'') (split (str ''%%'') text) = text"
    by (rule join_split) (simp add: str_def)
next
  let ?chunks = "split (str ''%%'') text"
  have "?chunks = butlast ?chunks @ [last ?chunks]"
    using split_nonempty by simp
  then have "comment_loop False ?chunks =
      comment_loop False (butlast ?chunks) @
      (if False = even (length (butlast ?chunks)) then comment_chunk (last ?chunks)
       else [last ?chunks])"
    using comment_loop_snoc[of False "butlast ?chunks" "last ?chunks"] by simp
  then show "fix_markdown_comments text =
     concat (comment_loop False (butlast ?chunks)) @
     (if odd (length ?chunks - 1)
      then concat (comment_chunk (last ?chunks))
      else last ?chunks)"
    by (simp add: fix_markdown_comments_def)
qed

theorem fix_markdown_comments_trailing_span_witness:
  "fix_markdown_comments (str ''a%%b'') = str ''a'' @ str ''<!--'' @ str ''b'' @ str ''-->'' \<and>
   fix_markdown_comments (str ''a%%b%%c'') = str ''a<!--b-->'' @ str ''c''"
proof -
  have s1: "split (str ''%%'') (str ''a%%b'') = [str ''a'', str ''b'']"
    by (simp add: str_def)
  have s2: "split (str ''%%'') (str ''a%%b%%c'') = [str ''a'', str ''b'', str ''c'']"
    by (simp add: str_def)
  have c: "comment_chunk (str ''b'') = [str ''<!--'', str ''b'', str ''-->'']"
    by (simp add: comment_chunk_def str_def LF_def)
  show ?thesis
    using fix_markdown_comments_trailing_span[of "str ''a%%b''"]
      fix_markdown_comments_trailing_span[of "str ''a%%b%%c''"]
    by (simp add: s1 s2 c) (simp add: str_def)
qed

text \<open>
  Claim C9 as stated fails: with one delimiter, the unmatched trailing span is wrapped
  as a comment, not appended verbatim.
\<close>

theorem fix_markdown_comments_unmatched_counterexample:
  "split (str ''%%'') (str ''a%%b'') = [str ''a'', str ''b''] \<and>
   fix_markdown_comments (str ''a%%b'') = str ''a<!--b-->'' \<and>
   fix_markdown_comments (str ''a%%b'') \<noteq> str ''a'' @ str ''b''"
  by (simp add: fix_markdown_comments_def str_def comment_chunk_def LF_def)

section \<open>The registry\<close>

lemma stem_org:
  assumes "st \<noteq> []"
  shows "name_stem (st @ str ''.org'') = st"
proof -
  have "rfind_dot (st @ str ''.org'') = Some (length st)"
    by (simp add: rfind_dot_def str_def)
  then show ?thesis using assms by (simp add: name_stem_def str_def)
qed

lemma md_key:
  assumes "name_suffix name = str ''.md''"
  shows "name_stem (with_suffix_org name) = name_stem name"
proof -
  from assms obtain i where i: "rfind_dot name = Some i" "0 < i" "i < length name - 1"
      "drop i name = str ''.md''"
    by (auto simp: name_suffix_def str_def split: option.splits if_splits)
  have "length (drop i name) = 3"
    using i(4) by (simp add: str_def)
  then have len: "length name = i + 3"
    by simp
  have st: "name_stem name = take i name"
    using i by (simp add: name_stem_def)
  have "with_suffix_org name = take i name @ str ''.org''"
    using assms len by (simp add: with_suffix_org_def str_def)
  moreover have "take i name \<noteq> []" using i len by auto
  ultimately show ?thesis using stem_org st by simp
qed

lemma assign_nodes_general:
  "assign_nodes nodes walk key =
     (case filter (\<lambda>(name, nid). is_markdown name \<and> normalize_key (name_stem name) = key) walk of
        [] \<Rightarrow> nodes key
      | d # ds \<Rightarrow> Some (snd (last (d # ds))))"
proof (induction nodes walk rule: assign_nodes.induct)
  case (1 nodes)
  then show ?case by simp
next
  case (2 nodes name nid walk)
  show ?case
  proof (cases "is_markdown name")
    case False
    then show ?thesis using 2(1,2) by (auto simp: is_markdown_def)
  next
    case True
    then have a: "name \<noteq> str ''.DS_Store''" and b: "name_suffix name = str ''.md''"
      by (auto simp: is_markdown_def)
    have b': "\<not> name_suffix name \<noteq> str ''.md''" using b by simp
    let ?K = "normalize_key (name_stem name)"
    let ?f = "filter (\<lambda>(name, nid). is_markdown name \<and> normalize_key (name_stem name) = key) walk"
    have IH: "assign_nodes (nodes(?K \<mapsto> nid)) walk key =
        (case ?f of [] \<Rightarrow> (nodes(?K \<mapsto> nid)) key | d # ds \<Rightarrow> Some (snd (last (d # ds))))"
      using 2(3)[OF a b' refl refl] by (simp only: md_key[OF b])
    have step: "assign_nodes nodes ((name, nid) # walk) key =
        assign_nodes (nodes(?K \<mapsto> nid)) walk key"
      using a b by (simp add: md_key Let_def)
    show ?thesis
    proof (cases "?K = key")
      case k: True
      then show ?thesis
        unfolding step IH using True by (cases ?f) auto
    next
      case k: False
      then show ?thesis
        unfolding step IH using True by (cases ?f) auto
    qed
  qed
qed

text \<open>
  After the walk, the registry holds one entry for each normalized name of a registered
  document and no other entry, and the entry of a name is the identifier of the last
  document of the walk with that name: a later document overwrites an earlier one of the
  same normalized name.
\<close>

lemma assign_nodes_last_wins:
  "assign_nodes Map.empty walk key =
     (case filter (\<lambda>(name, nid). is_markdown name \<and> normalize_key (name_stem name) = key) walk of
        [] \<Rightarrow> None
      | d # ds \<Rightarrow> Some (snd (last (d # ds)))) \<and>
   dom (assign_nodes Map.empty walk) =
     {normalize_key (name_stem name) | name nid. (name, nid) \<in> set walk \<and> is_markdown name}"
proof
  show first: "assign_nodes Map.empty walk key =
     (case filter (\<lambda>(name, nid). is_markdown name \<and> normalize_key (name_stem name) = key) walk of
        [] \<Rightarrow> None
      | d # ds \<Rightarrow> Some (snd (last (d # ds))))" for key
    by (simp add: assign_nodes_general)
  show "dom (assign_nodes Map.empty walk) =
     {normalize_key (name_stem name) | name nid. (name, nid) \<in> set walk \<and> is_markdown name}"
  proof (rule set_eqI)
    fix k
    have "k \<in> dom (assign_nodes Map.empty walk) \<longleftrightarrow>
          filter (\<lambda>(name, nid). is_markdown name \<and> normalize_key (name_stem name) = k) walk \<noteq> []"
      by (simp add: dom_def first split: list.splits)
    also have "\<dots> \<longleftrightarrow> (\<exists>name nid. (name, nid) \<in> set walk \<and> is_markdown name \<and>
          normalize_key (name_stem name) = k)"
      by (auto simp: filter_empty_conv)
    finally show "k \<in> dom (assign_nodes Map.empty walk) \<longleftrightarrow>
        k \<in> {normalize_key (name_stem name) | name nid. (name, nid) \<in> set walk \<and> is_markdown name}"
      by auto
  qed
qed

lemma key_two_spaces: "normalize_key (str ''A  B'') = str ''A B''"
  by (simp add: normalize_key_def strip_def str_def WS_RUN_RE_def plus_greedy_def is_space_def
      NBSP_def matched_def group_def)

lemma key_one_space: "normalize_key (str ''A B'') = str ''A B''"
  by (simp add: normalize_key_def strip_def str_def WS_RUN_RE_def plus_greedy_def is_space_def
      NBSP_def matched_def group_def)

lemma walk_names: "name_stem (str ''A  B.md'') = str ''A  B''" "name_suffix (str ''A  B.md'') = str ''.md''"
  "name_stem (str ''A B.md'') = str ''A B''" "name_suffix (str ''A B.md'') = str ''.md''"
  "name_suffix (str ''x.png'') = str ''.png''"
  by (simp_all add: name_stem_def name_suffix_def rfind_dot_def str_def)

lemma assign_nodes_last_wins_example:
  "assign_nodes Map.empty
     [(str ''A  B.md'', str ''ID1''), (str ''x.png'', str ''ID2''), (str ''A B.md'', str ''ID3'')]
     (str ''A B'') = Some (str ''ID3'')"
proof -
  have m: "is_markdown (str ''A  B.md'')" "is_markdown (str ''A B.md'')" "\<not> is_markdown (str ''x.png'')"
    by (simp_all add: is_markdown_def walk_names) (simp_all add: str_def)
  show ?thesis
    using assign_nodes_last_wins[of
        "[(str ''A  B.md'', str ''ID1''), (str ''x.png'', str ''ID2''), (str ''A B.md'', str ''ID3'')]"
        "str ''A B''"]
    by (simp add: m walk_names key_two_spaces key_one_space)
qed

section \<open>Matching and substitution\<close>

subsection \<open>Matchers\<close>

lemma lit_append [simp]: "lit p k (p @ s) = k s"
  by (induction p) auto

lemma lit_mismatch: "p \<noteq> [] \<Longrightarrow> c \<noteq> hd p \<Longrightarrow> lit p k (c # s) = None"
  by (cases p) auto

lemma star_greedy_run:
  assumes "\<forall>x\<in>set xs. P x" and "rest = [] \<or> \<not> P (hd rest)" and "k rest = Some r"
  shows "star_greedy P k (xs @ rest) = Some (xs, r)"
  using assms
proof (induction xs)
  case Nil
  then show ?case by (cases rest) auto
next
  case (Cons x xs)
  then show ?case by simp
qed

lemma star_greedy_run_fail:
  assumes "\<forall>x\<in>set xs. P x" and "rest = [] \<or> \<not> P (hd rest)" and "k rest = None"
    and "\<And>c s. P c \<Longrightarrow> k (c # s) = None"
  shows "star_greedy P k (xs @ rest) = None"
  using assms
proof (induction xs)
  case Nil
  then show ?case by (cases rest) auto
next
  case (Cons x xs)
  then show ?case by simp
qed

lemma plus_greedy_run:
  assumes "xs \<noteq> []" "\<forall>x\<in>set xs. P x" and "rest = [] \<or> \<not> P (hd rest)" and "k rest = Some r"
  shows "plus_greedy P k (xs @ rest) = Some (xs, r)"
proof -
  obtain y ys where xs: "xs = y # ys" using assms(1) by (cases xs) auto
  have "star_greedy P k (ys @ rest) = Some (ys, r)"
    using star_greedy_run[of ys P rest k r] assms xs by simp
  then show ?thesis using xs assms(2) by (simp add: plus_greedy_def)
qed

lemma plus_greedy_run_fail:
  assumes "\<forall>x\<in>set xs. P x" and "rest = [] \<or> \<not> P (hd rest)" and "k rest = None"
    and "\<And>c s. P c \<Longrightarrow> k (c # s) = None"
  shows "plus_greedy P k (xs @ rest) = None"
proof (cases xs)
  case Nil
  then show ?thesis using assms(2) by (cases rest) (auto simp: plus_greedy_def)
next
  case (Cons y ys)
  have "star_greedy P k (ys @ rest) = None"
    using star_greedy_run_fail[of ys P rest k] assms Cons by simp
  then show ?thesis using Cons by (simp add: plus_greedy_def)
qed

lemma star_lazy_run:
  assumes "\<forall>x\<in>set xs. P x" and "\<And>c s. c \<in> set xs \<Longrightarrow> k (c # s) = None" and "k rest = Some r"
  shows "star_lazy P k (xs @ rest) = Some (xs, r)"
  using assms
proof (induction xs)
  case Nil
  then show ?case by (cases rest) auto
next
  case (Cons x xs)
  then show ?case by simp
qed

lemma matched_append [simp]: "matched (m @ rest) rest = m"
  by (simp add: matched_def)

subsection \<open>Substitution\<close>

lemma re_sub_skip:
  assumes "\<And>zs. zs \<noteq> [] \<Longrightarrow> suffix zs pre \<Longrightarrow> re (zs @ rest) = None"
  shows "re_sub re repl (pre @ rest) = pre @ re_sub re repl rest"
  using assms
proof (induction pre)
  case Nil
  then show ?case by simp
next
  case (Cons c pre)
  have "re ((c # pre) @ rest) = None"
    using Cons.prems[of "c # pre"] by simp
  moreover have "re_sub re repl (pre @ rest) = pre @ re_sub re repl rest"
    using Cons.IH Cons.prems by (simp add: suffix_Cons)
  ultimately show ?case by simp
qed

lemma re_sub_skip_chars:
  assumes "\<And>c s. c \<in> set pre \<Longrightarrow> re (c # s) = None"
  shows "re_sub re repl (pre @ rest) = pre @ re_sub re repl rest"
proof (rule re_sub_skip)
  fix zs assume "zs \<noteq> []" "suffix zs pre"
  then obtain c zs' where "zs = c # zs'" "c \<in> set pre"
    by (cases zs) (auto simp: suffix_def)
  then show "re (zs @ rest) = None" using assms by simp
qed

lemma re_sub_match:
  assumes "re (m0 @ rest) = Some m" and "group m 0 = m0" and "m0 \<noteq> []"
  shows "re_sub re repl (m0 @ rest) = repl m @ re_sub re repl rest"
proof -
  obtain c cs where m0: "m0 = c # cs" using assms(3) by (cases m0) auto
  then show ?thesis using assms by simp
qed

subsection \<open>Where the patterns cannot match\<close>

lemma WIKI_DESC_first: "c \<noteq> 91 \<Longrightarrow> WIKI_DESC_RE (c # s) = None"
  by (simp add: WIKI_DESC_RE_def str_def)

lemma WIKI_SIMPLE_first: "c \<noteq> 91 \<Longrightarrow> WIKI_SIMPLE_RE (c # s) = None"
  by (simp add: WIKI_SIMPLE_RE_def str_def)

lemma BARE_LINK_first: "c \<noteq> 91 \<Longrightarrow> BARE_LINK_RE (c # s) = None"
  by (simp add: BARE_LINK_RE_def str_def)

lemma FILE_LINK_first: "c \<noteq> 91 \<Longrightarrow> FILE_LINK_RE (c # s) = None"
  by (simp add: FILE_LINK_RE_def str_def)

lemma EMBED_first: "c \<noteq> 33 \<Longrightarrow> EMBED_RE (c # s) = None"
  by (simp add: EMBED_RE_def str_def)

lemma WIKI_DESC_second: "c \<noteq> 91 \<Longrightarrow> WIKI_DESC_RE (d # c # s) = None" "WIKI_DESC_RE [d] = None"
  by (simp_all add: WIKI_DESC_RE_def str_def)

lemma WIKI_SIMPLE_second: "c \<noteq> 91 \<Longrightarrow> WIKI_SIMPLE_RE (d # c # s) = None" "WIKI_SIMPLE_RE [d] = None"
  by (simp_all add: WIKI_SIMPLE_RE_def str_def)

lemma BARE_LINK_second: "c \<noteq> 91 \<Longrightarrow> BARE_LINK_RE (d # c # s) = None" "BARE_LINK_RE [d] = None"
  by (simp_all add: BARE_LINK_RE_def str_def)

lemma FILE_LINK_second: "c \<noteq> 91 \<Longrightarrow> FILE_LINK_RE (d # c # s) = None" "FILE_LINK_RE [d] = None"
  by (simp_all add: FILE_LINK_RE_def str_def)

lemma EMBED_second: "c \<noteq> 91 \<Longrightarrow> EMBED_RE (d # c # s) = None" "EMBED_RE [d] = None"
  by (simp_all add: EMBED_RE_def str_def)

text \<open>
  A pattern that needs an opening bracket at its first or second place finds no match
  that starts inside a text without opening bracket, whatever follows the text.
\<close>

lemma re_sub_skip_bracket_free:
  assumes first: "\<And>c s. c \<noteq> 91 \<Longrightarrow> re (c # s) = None"
    and "91 \<notin> set pre"
  shows "re_sub re repl (pre @ rest) = pre @ re_sub re repl rest"
proof (rule re_sub_skip_chars)
  fix c s assume "c \<in> set pre"
  then have "c \<noteq> 91" using assms(2) by auto
  then show "re (c # s) = None" by (rule first)
qed

lemma EMBED_skip:
  assumes "91 \<notin> set pre" and "rest = [] \<or> hd rest \<noteq> 91 \<or> pre = [] \<or> last pre \<noteq> 33"
  shows "re_sub EMBED_RE repl (pre @ rest) = pre @ re_sub EMBED_RE repl rest"
proof (rule re_sub_skip)
  fix zs assume zs: "zs \<noteq> []" "suffix zs pre"
  then obtain c zs' where c: "zs = c # zs'" by (cases zs) auto
  show "EMBED_RE (zs @ rest) = None"
  proof (cases zs')
    case Nil
    then have l: "last pre = c" "pre \<noteq> []" using zs c by (auto simp: suffix_def)
    show ?thesis
    proof (cases "c = 33")
      case True
      then have "rest = [] \<or> hd rest \<noteq> 91" using assms(2) l by auto
      then show ?thesis using c Nil by (cases rest) (auto simp: EMBED_second)
    next
      case False
      then show ?thesis using c by (simp add: EMBED_first)
    qed
  next
    case (Cons d zs'')
    then have "d \<in> set pre" using zs c by (auto simp: suffix_def)
    then have "d \<noteq> 91" using assms(1) by auto
    then show ?thesis using c Cons by (simp add: EMBED_second)
  qed
qed

subsection \<open>Matches of well-formed links\<close>

lemma in_class3: "set page \<inter> set (str '']|['') = {} \<longleftrightarrow> 93 \<notin> set page \<and> 124 \<notin> set page \<and> 91 \<notin> set page"
  by (auto simp: str_def)

lemma in_class2: "set page \<inter> set (str '']|'') = {} \<longleftrightarrow> 93 \<notin> set page \<and> 124 \<notin> set page"
  by (auto simp: str_def)

lemma matched3 [simp]: "matched (a @ b @ c @ rest) rest = a @ b @ c"
  by (simp add: matched_def)

lemma matched5 [simp]: "matched (a @ b @ c @ d @ e @ rest) rest = a @ b @ c @ d @ e"
  by (simp add: matched_def)

lemma WIKI_SIMPLE_match:
  assumes "page \<noteq> []" and "set page \<inter> set (str '']|['') = {}"
  shows "WIKI_SIMPLE_RE (str ''[['' @ page @ str '']]'' @ rest) =
         Some [str ''[['' @ page @ str '']]'', page]"
proof -
  have "plus_greedy (\<lambda>c. c \<notin> set (str '']|['')) (lit (str '']]'') Some) (page @ str '']]'' @ rest) =
        Some (page, rest)"
    using assms by (intro plus_greedy_run) (auto simp: str_def)
  then show ?thesis by (simp add: WIKI_SIMPLE_RE_def)
qed

lemma BARE_LINK_match:
  assumes "page \<noteq> []" and "set page \<inter> set (str '']|['') = {}"
  shows "BARE_LINK_RE (str ''[['' @ page @ str '']]'' @ rest) =
         Some [str ''[['' @ page @ str '']]'', page]"
proof -
  have "plus_greedy (\<lambda>c. c \<notin> set (str '']|['')) (lit (str '']]'') Some) (page @ str '']]'' @ rest) =
        Some (page, rest)"
    using assms by (intro plus_greedy_run) (auto simp: str_def)
  then show ?thesis by (simp add: BARE_LINK_RE_def)
qed

lemma WIKI_DESC_unlabeled:
  assumes "set page \<inter> set (str '']|'') = {}"
  shows "WIKI_DESC_RE (str ''[['' @ page @ str '']'' @ rest) = None"
proof -
  let ?k = "lit (str ''|'') (plus_greedy (\<lambda>c. c \<notin> set (str '']'')) (lit (str '']]'') Some))"
  have "plus_greedy (\<lambda>c. c \<notin> set (str '']|'')) ?k (page @ str '']'' @ rest) = None"
    using assms by (intro plus_greedy_run_fail) (auto simp: str_def)
  then show ?thesis by (simp add: WIKI_DESC_RE_def)
qed

lemma EMBED_match_plain:
  assumes "name \<noteq> []" and "set name \<inter> set (str '']|'') = {}"
  shows "EMBED_RE (str ''![['' @ name @ str '']]'' @ rest) =
         Some [str ''![['' @ name @ str '']]'', name]"
proof -
  let ?k = "\<lambda>s2. case lit (str ''|'')
                 (star_greedy (\<lambda>c. c \<notin> set (str '']'')) (lit (str '']]'') Some)) s2 of
               Some (hint, rest) \<Rightarrow> Some rest
             | None \<Rightarrow> lit (str '']]'') Some s2"
  have "plus_greedy (\<lambda>c. c \<notin> set (str '']|'')) ?k (name @ str '']]'' @ rest) = Some (name, rest)"
    using assms by (intro plus_greedy_run) (auto simp: str_def)
  then show ?thesis by (simp add: EMBED_RE_def)
qed

lemma EMBED_match_hint:
  assumes "name \<noteq> []" and "set name \<inter> set (str '']|'') = {}" and "set hint \<inter> set (str '']'') = {}"
  shows "EMBED_RE (str ''![['' @ name @ str ''|'' @ hint @ str '']]'' @ rest) =
         Some [str ''![['' @ name @ str ''|'' @ hint @ str '']]'', name]"
proof -
  let ?k = "\<lambda>s2. case lit (str ''|'')
                 (star_greedy (\<lambda>c. c \<notin> set (str '']'')) (lit (str '']]'') Some)) s2 of
               Some (hint, rest) \<Rightarrow> Some rest
             | None \<Rightarrow> lit (str '']]'') Some s2"
  have "star_greedy (\<lambda>c. c \<notin> set (str '']'')) (lit (str '']]'') Some) (hint @ str '']]'' @ rest) =
        Some (hint, rest)"
    using assms(3) by (intro star_greedy_run) (auto simp: str_def)
  then have "?k (str ''|'' @ hint @ str '']]'' @ rest) = Some rest"
    by simp
  then have "plus_greedy (\<lambda>c. c \<notin> set (str '']|'')) ?k (name @ str ''|'' @ hint @ str '']]'' @ rest) =
      Some (name, rest)"
    using assms(1,2) by (intro plus_greedy_run) (auto simp: str_def)
  then show ?thesis by (simp add: EMBED_RE_def)
qed

lemma FILE_LINK_match:
  assumes "93 \<notin> set raw" "LF \<notin> set raw" "93 \<notin> set label" "LF \<notin> set label"
  shows "FILE_LINK_RE (str ''[[file:'' @ raw @ str '']['' @ label @ str '']]'' @ rest) =
         Some [str ''[[file:'' @ raw @ str '']['' @ label @ str '']]'', raw, label]"
proof -
  let ?key_one_space = "lit (str '']]'') Some"
  let ?key_two_spaces = "lit (str '']['') (star_lazy dot ?key_one_space)"
  have in2: "star_lazy dot ?key_one_space (label @ str '']]'' @ rest) = Some (label, rest)"
    using assms(3,4) by (intro star_lazy_run) (auto simp: str_def dot_def)
  have "star_lazy dot ?key_two_spaces (raw @ str '']['' @ label @ str '']]'' @ rest) = Some (raw, label, rest)"
    using assms(1,2) in2 by (intro star_lazy_run) (auto simp: str_def dot_def)
  then show ?thesis by (simp add: FILE_LINK_RE_def)
qed

lemma BARE_LINK_idref:
  assumes "set nid \<inter> set (str '']|['') = {}"
  shows "BARE_LINK_RE (str ''[[id:'' @ nid @ str '']['' @ rest) = None"
proof -
  have "plus_greedy (\<lambda>c. c \<notin> set (str '']|['')) (lit (str '']]'') Some)
          ((str ''id:'' @ nid) @ str '']['' @ rest) = None"
    using assms by (intro plus_greedy_run_fail) (auto simp: str_def)
  then show ?thesis by (simp add: BARE_LINK_RE_def str_def)
qed

subsection \<open>The test for URLs and paths\<close>

lemma lit_prefix: "lit p k s = (if prefix p s then k (drop (length p) s) else None)"
proof (induction p arbitrary: s)
  case Nil
  then show ?case by simp
next
  case (Cons a p)
  then show ?case by (cases s) auto
qed

lemma lit_Some_iff: "lit p k s \<noteq> None \<longleftrightarrow> (\<exists>t. s = p @ t \<and> k t \<noteq> None)"
  by (auto simp: lit_prefix prefix_def)

lemma star_greedy_total: "star_greedy P Some s \<noteq> None"
  by (induction s) (auto split: option.splits)

lemma star_greedy_finds:
  assumes "c \<in> set (takeWhile P s)" and "\<And>t. k t \<noteq> None"
  shows "star_greedy P (lit [c] k) s \<noteq> None"
  using assms(1)
proof (induction s)
  case Nil
  then show ?case by simp
next
  case (Cons x xs)
  then have Px: "P x" by (auto split: if_splits)
  show ?case
  proof (cases "x = c")
    case True
    then show ?thesis using Px assms(2) by (auto split: option.splits)
  next
    case False
    then have "c \<in> set (takeWhile P xs)" using Cons.prems Px by simp
    then have "star_greedy P (lit [c] k) xs \<noteq> None" by (rule Cons.IH)
    then show ?thesis using Px by (auto split: option.splits)
  qed
qed

lemma star_greedy_misses:
  assumes "P c" and "c \<notin> set (takeWhile P s)"
  shows "star_greedy P (lit [c] k) s = None"
  using assms(2)
proof (induction s)
  case Nil
  then show ?case by simp
next
  case (Cons x xs)
  then show ?case using assms(1) by (cases "P x") auto
qed

lemma url_or_path_iff:
  "url_or_path page \<longleftrightarrow>
     prefix (str ''http://'') page \<or> prefix (str ''https://'') page \<or>
     of_char CHR ''/'' \<in> set (first_line page) \<or> of_char CHR ''.'' \<in> set (first_line page)"
proof -
  have dot: "dot = (\<lambda>c. c \<noteq> LF)" by (auto simp: dot_def)
  have fl: "first_line page = takeWhile dot page"
    by (simp add: first_line_def dot)
  have d47: "dot 47" and d46: "dot 46" by (simp_all add: dot_def LF_def)
  have slash: "star_greedy dot (lit (str ''/'') Some) page \<noteq> None \<longleftrightarrow>
        of_char CHR ''/'' \<in> set (first_line page)"
  proof (cases "47 \<in> set (takeWhile dot page)")
    case True
    then have "star_greedy dot (lit [47] Some) page \<noteq> None"
      using star_greedy_finds[of 47 dot page Some] by simp
    then show ?thesis using True by (simp add: str_def fl)
  next
    case False
    then have "star_greedy dot (lit [47] Some) page = None"
      using star_greedy_misses[of dot 47 page Some] d47 by simp
    then show ?thesis using False by (simp add: str_def fl)
  qed
  have period: "star_greedy dot (lit (str ''.'') (star_greedy dot Some)) page \<noteq> None \<longleftrightarrow>
        of_char CHR ''.'' \<in> set (first_line page)"
  proof (cases "46 \<in> set (takeWhile dot page)")
    case True
    then have "star_greedy dot (lit [46] (star_greedy dot Some)) page \<noteq> None"
      using star_greedy_finds[of 46 dot page "star_greedy dot Some"] star_greedy_total[of dot] by simp
    then show ?thesis using True by (simp add: str_def fl)
  next
    case False
    then have "star_greedy dot (lit [46] (star_greedy dot Some)) page = None"
      using star_greedy_misses[of dot 46 page "star_greedy dot Some"] d46 by simp
    then show ?thesis using False by (simp add: str_def fl)
  qed
  have http: "lit (str ''http'')
       (\<lambda>s. case lit (str ''s'') (lit (str ''://'') Some) s of
              Some r \<Rightarrow> Some r
            | None \<Rightarrow> lit (str ''://'') Some s) page \<noteq> None \<longleftrightarrow>
      prefix (str ''http://'') page \<or> prefix (str ''https://'') page"
    (is "?l \<longleftrightarrow> ?r")
  proof -
    have k: "(case lit (str ''s'') (lit (str ''://'') Some) t of
                Some r \<Rightarrow> Some r
              | None \<Rightarrow> lit (str ''://'') Some t) \<noteq> None \<longleftrightarrow>
             lit (str ''s'') (lit (str ''://'') Some) t \<noteq> None \<or> lit (str ''://'') Some t \<noteq> None" for t
      by (cases "lit (str ''s'') (lit (str ''://'') Some) t") simp_all
    have "?l \<longleftrightarrow> (\<exists>t. page = str ''http'' @ t \<and>
             ((\<exists>u. t = str ''s'' @ u \<and> (\<exists>v. u = str ''://'' @ v)) \<or> (\<exists>v. t = str ''://'' @ v)))"
      by (simp only: lit_Some_iff k) simp
    also have "\<dots> \<longleftrightarrow> ?r"
      by (auto simp: prefix_def str_def)
    finally show ?thesis .
  qed
  show ?thesis
    unfolding url_or_path_def http slash period by blast
qed

lemmas text_defs = str_def LF_def CR_def NBSP_def is_space_def strip_def
lemmas regex_defs = plus_greedy_def dot_def group_def matched_def EMBED_RE_def WIKI_DESC_RE_def
  WIKI_SIMPLE_RE_def FILE_LINK_RE_def BARE_LINK_RE_def WS_RUN_RE_def NBSP_RE_def
lemmas link_defs = embed_repl_def url_or_path_def simple_repl_def fix_links_def path_name_def
  rfind_dot_def name_stem_def path_stem_def normalize_key_def nbsp_to_space_def repl_file_def
  repl_bare_def relink_def Let_def

section \<open>Embeds in pass 1\<close>

lemma re_sub_unmatched_link:
  assumes first: "\<And>c s. c \<noteq> 91 \<Longrightarrow> re (c # s) = None"
    and second: "\<And>d c s. c \<noteq> 91 \<Longrightarrow> re (d # c # s) = None"
    and whole: "re (str ''[['' @ p @ str '']]'' @ rest) = None"
    and p: "p \<noteq> []" "91 \<notin> set p"
  shows "re_sub re repl (str ''[['' @ p @ str '']]'' @ rest) =
         str ''[['' @ p @ str '']]'' @ re_sub re repl rest"
proof -
  obtain c cs where pc: "p = c # cs" "c \<noteq> 91" using p by (cases p) auto
  have w: "re (91 # 91 # p @ 93 # 93 # rest) = None"
    using whole by (simp add: str_def)
  have s: "re (91 # p @ 93 # 93 # rest) = None"
    using second[of c 91] pc by simp
  have "91 \<notin> set (p @ str '']]'')" using p by (simp add: str_def)
  then have "re_sub re repl ((p @ str '']]'') @ rest) = (p @ str '']]'') @ re_sub re repl rest"
    using first by (intro re_sub_skip_bracket_free) auto
  then have "re_sub re repl (p @ 93 # 93 # rest) = p @ 93 # 93 # re_sub re repl rest"
    by (simp add: str_def)
  then show ?thesis using w s by (simp add: str_def)
qed

lemma embed_step:
  assumes "name \<noteq> []" and "set name \<inter> set (str '']|'') = {}"
    and "case hint of None \<Rightarrow> True | Some h \<Rightarrow> set h \<inter> set (str '']'') = {}"
    and "91 \<notin> set pre"
  shows "re_sub EMBED_RE embed_repl (pre @ embed_syntax name hint @ post) =
         pre @ (str ''[[file:../attachments/'' @ name @ str '']]'') @ re_sub EMBED_RE embed_repl post"
proof -
  let ?E = "embed_syntax name hint"
  have hd: "hd (?E @ post) \<noteq> 91"
    by (cases hint) (simp_all add: embed_syntax_def str_def)
  have m: "EMBED_RE (?E @ post) = Some [?E, name]"
  proof (cases hint)
    case None
    then show ?thesis using EMBED_match_plain[OF assms(1,2), of post]
      by (simp add: embed_syntax_def)
  next
    case (Some h)
    then show ?thesis using EMBED_match_hint[OF assms(1,2), of h post] assms(3)
      by (simp add: embed_syntax_def)
  qed
  have ne: "?E \<noteq> []" by (cases hint) (simp_all add: embed_syntax_def str_def)
  have "re_sub EMBED_RE embed_repl (?E @ post) = embed_repl [?E, name] @ re_sub EMBED_RE embed_repl post"
    using m ne by (intro re_sub_match) (simp_all add: group_def)
  moreover have "re_sub EMBED_RE embed_repl (pre @ ?E @ post) =
        pre @ re_sub EMBED_RE embed_repl (?E @ post)"
    using assms(4) hd by (intro EMBED_skip) auto
  ultimately show ?thesis by (simp add: embed_repl_def group_def)
qed

lemma attachment_ref_desc:
  assumes "set name \<inter> set (str '']|['') = {}" and "91 \<notin> set pre"
  shows "re_sub WIKI_DESC_RE f (pre @ (str ''[[file:../attachments/'' @ name @ str '']]'') @ rest) =
         pre @ (str ''[[file:../attachments/'' @ name @ str '']]'') @ re_sub WIKI_DESC_RE f rest"
proof -
  let ?p = "str ''file:../attachments/'' @ name"
  have p: "?p \<noteq> []" "91 \<notin> set ?p" "set ?p \<inter> set (str '']|'') = {}"
    using assms(1) by (auto simp: str_def)
  have "WIKI_DESC_RE (str ''[['' @ ?p @ str '']'' @ str '']'' @ rest) = None"
    by (rule WIKI_DESC_unlabeled[OF p(3)])
  then have whole: "WIKI_DESC_RE (str ''[['' @ ?p @ str '']]'' @ rest) = None"
    by (simp add: str_def)
  have "re_sub WIKI_DESC_RE f (str ''[['' @ ?p @ str '']]'' @ rest) =
        str ''[['' @ ?p @ str '']]'' @ re_sub WIKI_DESC_RE f rest"
    using WIKI_DESC_first WIKI_DESC_second(1) whole p(1,2) by (rule re_sub_unmatched_link)
  moreover have "re_sub WIKI_DESC_RE f (pre @ str ''[['' @ ?p @ str '']]'' @ rest) =
        pre @ re_sub WIKI_DESC_RE f (str ''[['' @ ?p @ str '']]'' @ rest)"
    using WIKI_DESC_first assms(2) by (rule re_sub_skip_bracket_free)
  ultimately show ?thesis by (simp add: str_def)
qed

lemma attachment_ref_simple:
  assumes "set name \<inter> set (str '']|['') = {}" and "91 \<notin> set pre"
  shows "re_sub WIKI_SIMPLE_RE simple_repl
           (pre @ (str ''[[file:../attachments/'' @ name @ str '']]'') @ rest) =
         pre @ (str ''[[file:../attachments/'' @ name @ str '']]'') @
         re_sub WIKI_SIMPLE_RE simple_repl rest"
proof -
  let ?p = "str ''file:../attachments/'' @ name"
  let ?L = "str ''[['' @ ?p @ str '']]''"
  have p: "?p \<noteq> []" "set ?p \<inter> set (str '']|['') = {}"
    using assms(1) by (auto simp: str_def)
  have m: "WIKI_SIMPLE_RE (?L @ rest) = Some [?L, ?p]"
    using WIKI_SIMPLE_match[OF p, of rest] by simp
  have u: "url_or_path ?p"
    by (simp add: url_or_path_iff first_line_def str_def LF_def)
  have "re_sub WIKI_SIMPLE_RE simple_repl (?L @ rest) =
        simple_repl [?L, ?p] @ re_sub WIKI_SIMPLE_RE simple_repl rest"
    using m by (intro re_sub_match) (simp_all add: group_def str_def)
  then have "re_sub WIKI_SIMPLE_RE simple_repl (?L @ rest) =
        ?L @ re_sub WIKI_SIMPLE_RE simple_repl rest"
    using u by (simp add: simple_repl_def group_def)
  moreover have "re_sub WIKI_SIMPLE_RE simple_repl (pre @ ?L @ rest) =
        pre @ re_sub WIKI_SIMPLE_RE simple_repl (?L @ rest)"
    using WIKI_SIMPLE_first assms(2) by (rule re_sub_skip_bracket_free)
  ultimately show ?thesis by (simp add: str_def)
qed

section \<open>Wiki links through both passes\<close>

subsection \<open>A bare wiki link under the steps of pass 1\<close>

lemma link_embed_step:
  assumes "91 \<notin> set page" and "91 \<notin> set pre" and "pre = [] \<or> last pre \<noteq> 33"
  shows "re_sub EMBED_RE f (pre @ (str ''[['' @ page @ str '']]'') @ post) =
         pre @ (str ''[['' @ page @ str '']]'') @ re_sub EMBED_RE f post"
proof -
  have a: "re_sub EMBED_RE f (pre @ (str ''[['' @ page @ str '']]'' @ post)) =
           pre @ re_sub EMBED_RE f (str ''[['' @ page @ str '']]'' @ post)"
    using assms(2,3) by (intro EMBED_skip) auto
  have b: "re_sub EMBED_RE f (str ''[['' @ ((page @ str '']]'') @ post)) =
           str ''[['' @ re_sub EMBED_RE f ((page @ str '']]'') @ post)"
    by (intro re_sub_skip_chars) (auto simp: str_def EMBED_first)
  have c: "re_sub EMBED_RE f ((page @ str '']]'') @ post) =
           (page @ str '']]'') @ re_sub EMBED_RE f post"
    using assms(1) by (intro EMBED_skip) (auto simp: str_def)
  show ?thesis using a b c by simp
qed

lemma link_desc_step:
  assumes "page \<noteq> []" and "set page \<inter> set (str '']|['') = {}" and "91 \<notin> set pre"
  shows "re_sub WIKI_DESC_RE f (pre @ (str ''[['' @ page @ str '']]'') @ post) =
         pre @ (str ''[['' @ page @ str '']]'') @ re_sub WIKI_DESC_RE f post"
proof -
  have p: "91 \<notin> set page" "set page \<inter> set (str '']|'') = {}"
    using assms(2) by (auto simp: str_def)
  have "WIKI_DESC_RE (str ''[['' @ page @ str '']'' @ str '']'' @ post) = None"
    by (rule WIKI_DESC_unlabeled[OF p(2)])
  then have whole: "WIKI_DESC_RE (str ''[['' @ page @ str '']]'' @ post) = None"
    by (simp add: str_def)
  have "re_sub WIKI_DESC_RE f (str ''[['' @ page @ str '']]'' @ post) =
        str ''[['' @ page @ str '']]'' @ re_sub WIKI_DESC_RE f post"
    using WIKI_DESC_first WIKI_DESC_second(1) whole assms(1) p(1) by (rule re_sub_unmatched_link)
  moreover have "re_sub WIKI_DESC_RE f (pre @ str ''[['' @ page @ str '']]'' @ post) =
        pre @ re_sub WIKI_DESC_RE f (str ''[['' @ page @ str '']]'' @ post)"
    using WIKI_DESC_first assms(3) by (rule re_sub_skip_bracket_free)
  ultimately show ?thesis by simp
qed

lemma link_simple_step:
  assumes "page \<noteq> []" and "set page \<inter> set (str '']|['') = {}" and "91 \<notin> set pre"
  shows "re_sub WIKI_SIMPLE_RE simple_repl (pre @ (str ''[['' @ page @ str '']]'') @ post) =
         pre @ (if url_or_path page then str ''[['' @ page @ str '']]''
                else str ''[[file:'' @ page @ str ''.org]['' @ page @ str '']]'') @
         re_sub WIKI_SIMPLE_RE simple_repl post"
proof -
  let ?L = "str ''[['' @ page @ str '']]''"
  have m: "WIKI_SIMPLE_RE (?L @ post) = Some [?L, page]"
    using WIKI_SIMPLE_match[OF assms(1,2), of post] by simp
  have "re_sub WIKI_SIMPLE_RE simple_repl (?L @ post) =
        simple_repl [?L, page] @ re_sub WIKI_SIMPLE_RE simple_repl post"
    using m by (intro re_sub_match) (simp_all add: group_def str_def)
  moreover have "re_sub WIKI_SIMPLE_RE simple_repl (pre @ ?L @ post) =
        pre @ re_sub WIKI_SIMPLE_RE simple_repl (?L @ post)"
    using WIKI_SIMPLE_first assms(3) by (rule re_sub_skip_bracket_free)
  ultimately show ?thesis by (simp add: simple_repl_def group_def)
qed

lemma fix_links_simple_link:
  assumes "page \<noteq> []" and "set page \<inter> set (str '']|['') = {}"
    and "91 \<notin> set pre" and "pre = [] \<or> last pre \<noteq> 33"
  shows "fix_links (pre @ (str ''[['' @ page @ str '']]'') @ post) =
         pre @ (if url_or_path page then str ''[['' @ page @ str '']]''
                else str ''[[file:'' @ page @ str ''.org]['' @ page @ str '']]'') @
         fix_links post"
proof -
  have p: "91 \<notin> set page" using assms(2) by (auto simp: str_def)
  show ?thesis
    unfolding fix_links_def Let_def
    by (simp only: link_embed_step[OF p assms(3,4)] link_desc_step[OF assms(1,2,3)]
        link_simple_step[OF assms(1,2,3)])
qed

subsection \<open>Normalisations and stems\<close>

lemma nbsp_to_space_map: "nbsp_to_space s = map (\<lambda>c. if c = NBSP then 32 else c) s"
  unfolding nbsp_to_space_def
  by (induction s) (auto simp: NBSP_RE_def matched_def group_def str_def)

lemma nbsp_to_space_id: "NBSP \<notin> set s \<Longrightarrow> nbsp_to_space s = s"
  unfolding nbsp_to_space_map by (induction s) auto

lemma nbsp_to_space_set: "c \<noteq> 32 \<Longrightarrow> c \<notin> set s \<Longrightarrow> c \<notin> set (nbsp_to_space s)"
  by (auto simp: nbsp_to_space_map)

lemma split_no_sep: "c \<notin> set s \<Longrightarrow> split [c] s = [s]"
  by (induction s) auto

lemma path_stem_org:
  assumes "page \<noteq> []" and "47 \<notin> set page"
  shows "path_stem (page @ str ''.org'') = page"
proof -
  have "split (str ''/'') (page @ str ''.org'') = [page @ str ''.org'']"
    using assms(2) split_no_sep[of 47 "page @ str ''.org''"] by (simp add: str_def)
  moreover have "page @ str ''.org'' \<noteq> str ''.''" by (simp add: str_def)
  ultimately have "path_name (page @ str ''.org'') = page @ str ''.org''"
    by (simp add: path_name_def)
  moreover have "name_stem (page @ str ''.org'') = page"
  proof -
    have "rfind_dot (page @ str ''.org'') = Some (length page)"
      by (simp add: rfind_dot_def str_def)
    then show ?thesis using assms(1) by (simp add: name_stem_def str_def)
  qed
  ultimately show ?thesis by (simp add: path_stem_def)
qed

subsection \<open>Identifier references under the steps of pass 2\<close>

lemma re_sub_idref:
  assumes first: "\<And>c s. c \<noteq> 91 \<Longrightarrow> re (c # s) = None"
    and second: "\<And>d c s. c \<noteq> 91 \<Longrightarrow> re (d # c # s) = None"
    and whole: "re (str ''[[id:'' @ nid @ str '']['' @ label @ str '']]'' @ rest) = None"
    and "91 \<notin> set nid" "91 \<notin> set label"
  shows "re_sub re repl (str ''[[id:'' @ nid @ str '']['' @ label @ str '']]'' @ rest) =
         str ''[[id:'' @ nid @ str '']['' @ label @ str '']]'' @ re_sub re repl rest"
proof -
  let ?t = "label @ str '']]''"
  let ?u = "str ''id:'' @ nid @ str '']''"
  have t: "re_sub re repl (?t @ rest) = ?t @ re_sub re repl rest"
    using first assms(5) by (intro re_sub_skip_bracket_free) (auto simp: str_def)
  have "hd (?t @ rest) \<noteq> 91" using assms(5) by (cases label) (auto simp: str_def)
  then obtain c cs where tc: "?t @ rest = c # cs" "c \<noteq> 91"
    by (cases "?t @ rest") (auto simp: str_def)
  have b: "re (91 # ?t @ rest) = None"
    using second[of c 91 cs] tc by simp
  have bt: "re_sub re repl (91 # ?t @ rest) = 91 # ?t @ re_sub re repl rest"
    using b t by simp
  have u: "re_sub re repl (?u @ (91 # ?t @ rest)) = ?u @ re_sub re repl (91 # ?t @ rest)"
    using first assms(4) by (intro re_sub_skip_bracket_free) (auto simp: str_def)
  have s: "re (91 # ?u @ 91 # ?t @ rest) = None"
    using second[of 105 91] by (simp add: str_def)
  have w: "re (91 # 91 # ?u @ 91 # ?t @ rest) = None"
    using whole by (simp add: str_def)
  have "re_sub re repl (91 # 91 # ?u @ 91 # ?t @ rest) = 91 # 91 # ?u @ 91 # ?t @ re_sub re repl rest"
    using w s u bt by simp
  then show ?thesis by (simp add: str_def)
qed

lemma idref_bare_step:
  assumes "set nid \<inter> set (str '']|['') = {}" and "91 \<notin> set label" and "91 \<notin> set pre"
  shows "re_sub BARE_LINK_RE f (pre @ (str ''[[id:'' @ nid @ str '']['' @ label @ str '']]'') @ rest) =
         pre @ (str ''[[id:'' @ nid @ str '']['' @ label @ str '']]'') @ re_sub BARE_LINK_RE f rest"
proof -
  have n: "91 \<notin> set nid" using assms(1) by (auto simp: str_def)
  have whole: "BARE_LINK_RE (str ''[[id:'' @ nid @ str '']['' @ label @ str '']]'' @ rest) = None"
    by (rule BARE_LINK_idref[OF assms(1)])
  have "re_sub BARE_LINK_RE f (str ''[[id:'' @ nid @ str '']['' @ label @ str '']]'' @ rest) =
        str ''[[id:'' @ nid @ str '']['' @ label @ str '']]'' @ re_sub BARE_LINK_RE f rest"
    using BARE_LINK_first BARE_LINK_second(1) whole n assms(2) by (rule re_sub_idref)
  moreover have "re_sub BARE_LINK_RE f (pre @ str ''[[id:'' @ nid @ str '']['' @ label @ str '']]'' @ rest) =
        pre @ re_sub BARE_LINK_RE f (str ''[[id:'' @ nid @ str '']['' @ label @ str '']]'' @ rest)"
    using BARE_LINK_first assms(3) by (rule re_sub_skip_bracket_free)
  ultimately show ?thesis by simp
qed

lemma FILE_LINK_idref: "FILE_LINK_RE (str ''[[id:'' @ rest) = None"
  by (simp add: FILE_LINK_RE_def str_def)

lemma idref_file_step:
  assumes "91 \<notin> set nid" and "91 \<notin> set label" and "91 \<notin> set pre"
  shows "re_sub FILE_LINK_RE f (pre @ (str ''[[id:'' @ nid @ str '']['' @ label @ str '']]'') @ rest) =
         pre @ (str ''[[id:'' @ nid @ str '']['' @ label @ str '']]'') @ re_sub FILE_LINK_RE f rest"
proof -
  have whole: "FILE_LINK_RE (str ''[[id:'' @ nid @ str '']['' @ label @ str '']]'' @ rest) = None"
    by (rule FILE_LINK_idref)
  have "re_sub FILE_LINK_RE f (str ''[[id:'' @ nid @ str '']['' @ label @ str '']]'' @ rest) =
        str ''[[id:'' @ nid @ str '']['' @ label @ str '']]'' @ re_sub FILE_LINK_RE f rest"
    using FILE_LINK_first FILE_LINK_second(1) whole assms(1,2) by (rule re_sub_idref)
  moreover have "re_sub FILE_LINK_RE f (pre @ str ''[[id:'' @ nid @ str '']['' @ label @ str '']]'' @ rest) =
        pre @ re_sub FILE_LINK_RE f (str ''[[id:'' @ nid @ str '']['' @ label @ str '']]'' @ rest)"
    using FILE_LINK_first assms(3) by (rule re_sub_skip_bracket_free)
  ultimately show ?thesis by simp
qed

lemma not_url_or_path:
  assumes "47 \<notin> set page" "46 \<notin> set page"
  shows "\<not> url_or_path page"
proof -
  have "set (first_line page) \<subseteq> set page"
    by (auto simp: first_line_def dest: set_takeWhileD)
  moreover have "\<not> prefix (str ''http://'') page" "\<not> prefix (str ''https://'') page"
    using assms(1) by (auto simp: prefix_def str_def)
  ultimately show ?thesis using assms by (auto simp: url_or_path_iff)
qed

lemma file_ref_file_step:
  assumes "page \<noteq> []" and "set page \<inter> set (str ''[]|/.'') = {}" and "LF \<notin> set page"
    and "91 \<notin> set pre" and "nodes (normalize_key page) = Some nid" and "nid \<noteq> []"
  shows "re_sub FILE_LINK_RE (repl_file nodes)
           (pre @ (str ''[[file:'' @ page @ str ''.org]['' @ page @ str '']]'') @ rest) =
         pre @ (str ''[[id:'' @ nid @ str '']['' @ nbsp_to_space page @ str '']]'') @
         re_sub FILE_LINK_RE (repl_file nodes) rest"
proof -
  let ?raw = "page @ str ''.org''"
  let ?F = "str ''[[file:'' @ ?raw @ str '']['' @ page @ str '']]''"
  have p: "93 \<notin> set page" "47 \<notin> set page" using assms(2) by (auto simp: str_def)
  have r: "93 \<notin> set ?raw" "LF \<notin> set ?raw"
    using p assms(3) by (auto simp: str_def LF_def)
  have m: "FILE_LINK_RE (?F @ rest) = Some [?F, ?raw, page]"
    using FILE_LINK_match[OF r p(1) assms(3), of rest] by simp
  have "re_sub FILE_LINK_RE (repl_file nodes) (?F @ rest) =
        repl_file nodes [?F, ?raw, page] @ re_sub FILE_LINK_RE (repl_file nodes) rest"
    using m by (intro re_sub_match) (simp_all add: group_def str_def)
  moreover have "repl_file nodes [?F, ?raw, page] =
        str ''[[id:'' @ nid @ str '']['' @ nbsp_to_space page @ str '']]''"
    using assms(5,6) path_stem_org[OF assms(1) p(2)]
    by (simp add: repl_file_def group_def Let_def)
  moreover have "re_sub FILE_LINK_RE (repl_file nodes) (pre @ ?F @ rest) =
        pre @ re_sub FILE_LINK_RE (repl_file nodes) (?F @ rest)"
    using FILE_LINK_first assms(4) by (rule re_sub_skip_bracket_free)
  ultimately show ?thesis by (simp add: str_def)
qed

text \<open>
  A bare wiki link after text without opening bracket, through both passes. Let the page
  be not empty, on one line and without bracket, bar, slash or dot, and let the text
  before the link not end with an exclamation mark. If the registry has an identifier for
  the normalized page (an identifier without bracket or bar), then pass 1 followed by
  pass 2 puts at the place of the link the identifier reference to that identifier whose
  label is the page with every no-break space replaced by a space (so the label is the
  page itself when the page has no no-break space); the text after the link is
  rewritten on its own.
\<close>

lemma wiki_link_resolved:
  assumes "page \<noteq> []" and "set page \<inter> set (str ''[]|/.'') = {}" and "LF \<notin> set page"
    and "set pre \<inter> set (str ''['') = {}" and "pre = [] \<or> last pre \<noteq> of_char CHR ''!''"
    and "nodes (normalize_key page) = Some nid"
    and "nid \<noteq> []" and "set nid \<inter> set (str ''[]|'') = {}"
  shows "relink nodes (fix_links (pre @ str ''[['' @ page @ str '']]'' @ post)) =
           pre @ str ''[[id:'' @ nid @ str '']['' @
             map (\<lambda>c. if c = NBSP then of_char CHR '' '' else c) page @ str '']]'' @
           relink nodes (fix_links post) \<and>
         (NBSP \<notin> set page \<longrightarrow> map (\<lambda>c. if c = NBSP then of_char CHR '' '' else c) page = page)"
proof
  have pre: "91 \<notin> set pre" "pre = [] \<or> last pre \<noteq> 33"
    using assms(4,5) by (auto simp: str_def)
  have p3: "set page \<inter> set (str '']|['') = {}" and p: "47 \<notin> set page" "46 \<notin> set page" "91 \<notin> set page"
    using assms(2) by (auto simp: str_def)
  have n3: "set nid \<inter> set (str '']|['') = {}"
    using assms(8) by (auto simp: str_def)
  have lab: "91 \<notin> set (nbsp_to_space page)"
    using p(3) by (intro nbsp_to_space_set) simp_all
  have one: "fix_links (pre @ (str ''[['' @ page @ str '']]'') @ post) =
        pre @ (str ''[[file:'' @ page @ str ''.org]['' @ page @ str '']]'') @ fix_links post"
    using fix_links_simple_link[OF assms(1) p3 pre, of post] not_url_or_path[OF p(1,2)] by simp
  have f: "re_sub FILE_LINK_RE (repl_file nodes)
           (pre @ (str ''[[file:'' @ page @ str ''.org]['' @ page @ str '']]'') @ fix_links post) =
         pre @ (str ''[[id:'' @ nid @ str '']['' @ nbsp_to_space page @ str '']]'') @
         re_sub FILE_LINK_RE (repl_file nodes) (fix_links post)"
    using assms(1,2,3) pre(1) assms(6,7) by (rule file_ref_file_step)
  have "relink nodes (pre @ (str ''[[file:'' @ page @ str ''.org]['' @ page @ str '']]'') @ fix_links post) =
        pre @ (str ''[[id:'' @ nid @ str '']['' @ nbsp_to_space page @ str '']]'') @
        relink nodes (fix_links post)"
    unfolding relink_def Let_def
    by (simp only: f idref_bare_step[OF n3 lab pre(1)])
  then show "relink nodes (fix_links (pre @ str ''[['' @ page @ str '']]'' @ post)) =
           pre @ str ''[[id:'' @ nid @ str '']['' @
             map (\<lambda>c. if c = NBSP then of_char CHR '' '' else c) page @ str '']]'' @
           relink nodes (fix_links post)"
    using one by (simp add: nbsp_to_space_map)
  show "NBSP \<notin> set page \<longrightarrow> map (\<lambda>c. if c = NBSP then of_char CHR '' '' else c) page = page"
    by (induction page) auto
qed

text \<open>
  The label of the identifier reference of a page with a no-break space: \<open>repl_file\<close>
  replaces the no-break space by a space.
\<close>

lemma wiki_link_label_nbsp:
  "normalize_key (str ''A'' @ [NBSP] @ str ''B'') = normalize_key (str ''A B'') \<and>
   relink [normalize_key (str ''A B'') \<mapsto> str ''0F3A''] (fix_links (str ''[[A'' @ [NBSP] @ str ''B]]'')) =
     str ''[[id:0F3A][A B]]'' \<and>
   str ''A B'' \<noteq> str ''A'' @ [NBSP] @ str ''B''"
  by (simp add: text_defs regex_defs link_defs)

lemma FILE_LINK_not_file:
  assumes "\<not> prefix (str ''file:'') page"
  shows "FILE_LINK_RE (str ''[['' @ page @ str '']]'' @ rest) = None"
proof -
  have "\<not> prefix (str ''file:'') (page @ str '']]'' @ rest)"
  proof
    assume "prefix (str ''file:'') (page @ str '']]'' @ rest)"
    then obtain us where us: "str ''file:'' = page @ us" "prefix us (str '']]'' @ rest)"
      using assms by (auto simp: prefix_append)
    show False
    proof (cases us)
      case Nil
      then show ?thesis using us(1) assms by simp
    next
      case (Cons u us')
      then have "u = 93" using us(2) by (simp add: str_def)
      then have "93 \<in> set (str ''file:'')" using us(1) Cons by simp
      then show ?thesis by (simp add: str_def)
    qed
  qed
  then have "\<not> prefix (str ''[[file:'') (str ''[['' @ page @ str '']]'' @ rest)"
    by (simp add: str_def)
  then show ?thesis by (simp add: FILE_LINK_RE_def lit_prefix)
qed

lemma bare_link_file_step:
  assumes "page \<noteq> []" and "91 \<notin> set page" and "\<not> prefix (str ''file:'') page" and "91 \<notin> set pre"
  shows "re_sub FILE_LINK_RE f (pre @ (str ''[['' @ page @ str '']]'') @ rest) =
         pre @ (str ''[['' @ page @ str '']]'') @ re_sub FILE_LINK_RE f rest"
proof -
  have whole: "FILE_LINK_RE (str ''[['' @ page @ str '']]'' @ rest) = None"
    by (rule FILE_LINK_not_file[OF assms(3)])
  have "re_sub FILE_LINK_RE f (str ''[['' @ page @ str '']]'' @ rest) =
        str ''[['' @ page @ str '']]'' @ re_sub FILE_LINK_RE f rest"
    using FILE_LINK_first FILE_LINK_second(1) whole assms(1,2) by (rule re_sub_unmatched_link)
  moreover have "re_sub FILE_LINK_RE f (pre @ str ''[['' @ page @ str '']]'' @ rest) =
        pre @ re_sub FILE_LINK_RE f (str ''[['' @ page @ str '']]'' @ rest)"
    using FILE_LINK_first assms(4) by (rule re_sub_skip_bracket_free)
  ultimately show ?thesis by simp
qed

lemma bare_link_bare_step:
  assumes "page \<noteq> []" and "set page \<inter> set (str '']|['') = {}" and "91 \<notin> set pre"
  shows "re_sub BARE_LINK_RE (repl_bare nodes) (pre @ (str ''[['' @ page @ str '']]'') @ rest) =
         pre @ repl_bare nodes [str ''[['' @ page @ str '']]'', page] @
         re_sub BARE_LINK_RE (repl_bare nodes) rest"
proof -
  let ?L = "str ''[['' @ page @ str '']]''"
  have m: "BARE_LINK_RE (?L @ rest) = Some [?L, page]"
    using BARE_LINK_match[OF assms(1,2), of rest] by simp
  have "re_sub BARE_LINK_RE (repl_bare nodes) (?L @ rest) =
        repl_bare nodes [?L, page] @ re_sub BARE_LINK_RE (repl_bare nodes) rest"
    using m by (intro re_sub_match) (simp_all add: group_def str_def)
  moreover have "re_sub BARE_LINK_RE (repl_bare nodes) (pre @ ?L @ rest) =
        pre @ re_sub BARE_LINK_RE (repl_bare nodes) (?L @ rest)"
    using BARE_LINK_first assms(3) by (rule re_sub_skip_bracket_free)
  ultimately show ?thesis by simp
qed

lemma relink_bare_link:
  assumes "page \<noteq> []" and "set page \<inter> set (str '']|['') = {}"
    and "\<not> prefix (str ''file:'') page" and "91 \<notin> set pre"
  shows "relink nodes (pre @ (str ''[['' @ page @ str '']]'') @ rest) =
         pre @ repl_bare nodes [str ''[['' @ page @ str '']]'', page] @ relink nodes rest"
proof -
  have p: "91 \<notin> set page" using assms(2) by (auto simp: str_def)
  show ?thesis
    unfolding relink_def Let_def
    by (simp only: bare_link_file_step[OF assms(1) p assms(3,4)]
        bare_link_bare_step[OF assms(1,2,4)])
qed

section \<open>Documents of links under pass 1\<close>

subsection \<open>Text without two opening brackets in a row\<close>

lemma double_bracket_Cons:
  "double_bracket (c # cs) \<longleftrightarrow> (c = 91 \<and> cs \<noteq> [] \<and> hd cs = 91) \<or> double_bracket cs"
  by (cases cs) auto

lemma double_bracket_append:
  "double_bracket (a @ b) \<longleftrightarrow>
   double_bracket a \<or> double_bracket b \<or> (a \<noteq> [] \<and> last a = 91 \<and> b \<noteq> [] \<and> hd b = 91)"
proof (induction a)
  case Nil
  then show ?case by simp
next
  case (Cons c a)
  show ?case
  proof (cases a)
    case Nil
    then show ?thesis by (cases b) (auto simp: double_bracket_Cons)
  next
    case (Cons d a')
    then show ?thesis using Cons.IH by (auto simp: double_bracket_Cons)
  qed
qed

lemma bracket_free_no_double: "91 \<notin> set s \<Longrightarrow> \<not> double_bracket s"
  by (induction s) (auto simp: double_bracket_Cons)

lemma double_bracket_suffix: "suffix zs p \<Longrightarrow> double_bracket zs \<Longrightarrow> double_bracket p"
  by (auto simp: suffix_def double_bracket_append)

lemma re_sub_skip_plain:
  assumes first: "\<And>c s. c \<noteq> 91 \<Longrightarrow> re (c # s) = None"
    and second: "\<And>d c s. c \<noteq> 91 \<Longrightarrow> re (d # c # s) = None"
    and single: "\<And>d. re [d] = None"
    and "\<not> double_bracket p"
    and "p = [] \<or> last p \<noteq> 91 \<or> rest = [] \<or> hd rest \<noteq> 91"
  shows "re_sub re repl (p @ rest) = p @ re_sub re repl rest"
proof (rule re_sub_skip)
  fix zs assume zs: "zs \<noteq> []" "suffix zs p"
  then obtain c zs' where c: "zs = c # zs'" by (cases zs) auto
  have nd: "\<not> double_bracket zs" using zs(2) assms(4) double_bracket_suffix by blast
  show "re (zs @ rest) = None"
  proof (cases "c = 91")
    case False
    then show ?thesis using c first by simp
  next
    case True
    show ?thesis
    proof (cases zs')
      case Nil
      then have "last p = 91" "p \<noteq> []" using zs c True by (auto simp: suffix_def)
      then have "rest = [] \<or> hd rest \<noteq> 91" using assms(5) by auto
      then show ?thesis using c Nil single second by (cases rest) auto
    next
      case (Cons d zs'')
      then have "d \<noteq> 91" using nd c True by (auto simp: double_bracket_Cons)
      then show ?thesis using c Cons second by simp
    qed
  qed
qed

lemma EMBED_third: "c \<noteq> 91 \<Longrightarrow> EMBED_RE (a # b # c # s) = None" "EMBED_RE [a, b] = None"
  by (simp_all add: EMBED_RE_def str_def)

lemma EMBED_skip_plain:
  assumes "\<not> double_bracket p"
    and "(p = [] \<or> (last p \<noteq> 33 \<and> last p \<noteq> 91)) \<or> (rest = [] \<or> hd rest \<noteq> 91)"
  shows "re_sub EMBED_RE repl (p @ rest) = p @ re_sub EMBED_RE repl rest"
proof (rule re_sub_skip)
  fix zs assume zs: "zs \<noteq> []" "suffix zs p"
  then obtain c zs' where c: "zs = c # zs'" by (cases zs) auto
  have nd: "\<not> double_bracket zs" using zs(2) assms(1) double_bracket_suffix by blast
  have lp: "p \<noteq> []" "last p = last zs" using zs by (auto simp: suffix_def)
  show "EMBED_RE (zs @ rest) = None"
  proof (cases zs')
    case Nil
    show ?thesis
    proof (cases "c = 33")
      case False
      then show ?thesis using c by (simp add: EMBED_first)
    next
      case True
      then have "rest = [] \<or> hd rest \<noteq> 91" using assms(2) lp c Nil by auto
      then show ?thesis using c Nil by (cases rest) (auto simp: EMBED_second)
    qed
  next
    case (Cons d zs'')
    show ?thesis
    proof (cases "d = 91")
      case False
      then show ?thesis using c Cons by (simp add: EMBED_second)
    next
      case True
      show ?thesis
      proof (cases zs'')
        case Nil
        then have "last p = 91" using lp c Cons True by simp
        then have "rest = [] \<or> hd rest \<noteq> 91" using assms(2) lp by auto
        then show ?thesis using c Cons Nil by (cases rest) (auto simp: EMBED_third)
      next
        case (Cons e zs''')
        then have "e \<noteq> 91" using nd c \<open>zs' = d # zs''\<close> True by (auto simp: double_bracket_Cons)
        then show ?thesis using c \<open>zs' = d # zs''\<close> Cons by (simp add: EMBED_third)
      qed
    qed
  qed
qed

lemma clean_beforeD:
  assumes "clean_before l p"
  shows "\<not> double_bracket p" "p = [] \<or> last p \<noteq> 91"
    "is_embed l \<or> p = [] \<or> last p \<noteq> 33"
  using assms by (auto simp: clean_before_def)

subsection \<open>A bare wiki link after plain text\<close>

lemma wiki_pass1:
  assumes "well_formed (Wiki page)" and "clean_before (Wiki page) p"
  shows "fix_links (p @ link_source (Wiki page) @ rest) =
         p @ link_pass1 (Wiki page) @ fix_links rest"
proof -
  let ?L = "str ''[['' @ page @ str '']]''"
  have wf: "page \<noteq> []" "set page \<inter> set (str '']|['') = {}" "91 \<notin> set page"
    using assms(1) by (auto simp: str_def)
  note cl = clean_beforeD[OF assms(2)]
  have A: "(p = [] \<or> (last p \<noteq> 33 \<and> last p \<noteq> 91)) \<or> (r = [] \<or> hd r \<noteq> 91)" for r :: ustring
    using cl by auto
  have B: "p = [] \<or> last p \<noteq> 91 \<or> r = [] \<or> hd r \<noteq> 91" for r :: ustring
    using cl by auto
  have e: "re_sub EMBED_RE f (p @ ?L @ r) = p @ ?L @ re_sub EMBED_RE f r" for f r
  proof -
    have "re_sub EMBED_RE f (p @ (?L @ r)) = p @ re_sub EMBED_RE f (?L @ r)"
      by (rule EMBED_skip_plain[OF cl(1) A])
    then show ?thesis
      using link_embed_step[OF wf(3), of "[]" f r] by simp
  qed
  have d: "re_sub WIKI_DESC_RE f (p @ ?L @ r) = p @ ?L @ re_sub WIKI_DESC_RE f r" for f r
  proof -
    have "re_sub WIKI_DESC_RE f (p @ (?L @ r)) = p @ re_sub WIKI_DESC_RE f (?L @ r)"
      by (rule re_sub_skip_plain[OF WIKI_DESC_first WIKI_DESC_second cl(1) B])
    then show ?thesis
      using link_desc_step[OF wf(1,2), of "[]" f r] by simp
  qed
  have s: "re_sub WIKI_SIMPLE_RE simple_repl (p @ ?L @ r) =
        p @ link_pass1 (Wiki page) @ re_sub WIKI_SIMPLE_RE simple_repl r" for r
  proof -
    have "re_sub WIKI_SIMPLE_RE simple_repl (p @ (?L @ r)) =
          p @ re_sub WIKI_SIMPLE_RE simple_repl (?L @ r)"
      by (rule re_sub_skip_plain[OF WIKI_SIMPLE_first WIKI_SIMPLE_second cl(1) B])
    then show ?thesis
      using link_simple_step[OF wf(1,2), of "[]" r] by simp
  qed
  show ?thesis
    unfolding fix_links_def Let_def link_source.simps
    by (simp only: e d s)
qed

subsection \<open>A labeled wiki link after plain text\<close>

lemma re_sub_two_part:
  assumes first: "\<And>c s. c \<noteq> 91 \<Longrightarrow> re (c # s) = None"
    and second: "\<And>d c s. c \<noteq> 91 \<Longrightarrow> re (d # c # s) = None"
    and whole: "re (str ''[['' @ u @ str '']['' @ label @ str '']]'' @ rest) = None"
    and "u \<noteq> []" "91 \<notin> set u" "91 \<notin> set label"
  shows "re_sub re repl (str ''[['' @ u @ str '']['' @ label @ str '']]'' @ rest) =
         str ''[['' @ u @ str '']['' @ label @ str '']]'' @ re_sub re repl rest"
proof -
  let ?t = "label @ str '']]''"
  let ?u = "u @ str '']''"
  have t: "re_sub re repl (?t @ rest) = ?t @ re_sub re repl rest"
    using first assms(6) by (intro re_sub_skip_bracket_free) (auto simp: str_def)
  have "hd (?t @ rest) \<noteq> 91" using assms(6) by (cases label) (auto simp: str_def)
  then obtain c cs where tc: "?t @ rest = c # cs" "c \<noteq> 91"
    by (cases "?t @ rest") (auto simp: str_def)
  have b: "re (91 # ?t @ rest) = None"
    using second[of c 91 cs] tc by simp
  have bt: "re_sub re repl (91 # ?t @ rest) = 91 # ?t @ re_sub re repl rest"
    using b t by simp
  have us: "re_sub re repl (?u @ (91 # ?t @ rest)) = ?u @ re_sub re repl (91 # ?t @ rest)"
    using first assms(5) by (intro re_sub_skip_bracket_free) (auto simp: str_def)
  obtain x xs where u: "u = x # xs" "x \<noteq> 91" using assms(4,5) by (cases u) auto
  have s: "re (91 # ?u @ 91 # ?t @ rest) = None"
    using second[of x 91] u by simp
  have w: "re (91 # 91 # ?u @ 91 # ?t @ rest) = None"
    using whole by (simp add: str_def)
  have "re_sub re repl (91 # 91 # ?u @ 91 # ?t @ rest) = 91 # 91 # ?u @ 91 # ?t @ re_sub re repl rest"
    using w s us bt by simp
  then show ?thesis by (simp add: str_def)
qed

lemma WIKI_DESC_match:
  assumes "page \<noteq> []" and "set page \<inter> set (str '']|'') = {}"
    and "label \<noteq> []" and "set label \<inter> set (str '']'') = {}"
  shows "WIKI_DESC_RE (str ''[['' @ page @ str ''|'' @ label @ str '']]'' @ rest) =
         Some [str ''[['' @ page @ str ''|'' @ label @ str '']]'', page, label]"
proof -
  let ?k2 = "lit (str '']]'') Some"
  let ?k1 = "lit (str ''|'') (plus_greedy (\<lambda>c. c \<notin> set (str '']'')) ?k2)"
  have a: "plus_greedy (\<lambda>c. c \<notin> set (str '']'')) ?k2 (label @ str '']]'' @ rest) = Some (label, rest)"
    using assms(3,4) by (intro plus_greedy_run) (auto simp: str_def)
  then have "?k1 (str ''|'' @ label @ str '']]'' @ rest) = Some (label, rest)"
    by simp
  then have "plus_greedy (\<lambda>c. c \<notin> set (str '']|'')) ?k1 (page @ str ''|'' @ label @ str '']]'' @ rest) =
        Some (page, label, rest)"
    using assms(1,2) by (intro plus_greedy_run) (auto simp: str_def)
  then show ?thesis by (simp add: WIKI_DESC_RE_def)
qed

lemma WIKI_SIMPLE_two_part:
  assumes "set u \<inter> set (str '']|['') = {}"
  shows "WIKI_SIMPLE_RE (str ''[['' @ u @ str '']['' @ rest) = None"
proof -
  have "plus_greedy (\<lambda>c. c \<notin> set (str '']|['')) (lit (str '']]'') Some) (u @ str '']['' @ rest) = None"
    using assms by (intro plus_greedy_run_fail) (auto simp: str_def)
  then show ?thesis by (simp add: WIKI_SIMPLE_RE_def)
qed

lemma labeled_pass1:
  assumes "well_formed (Labeled page label)" and "clean_before (Labeled page label) p"
  shows "fix_links (p @ link_source (Labeled page label) @ rest) =
         p @ link_pass1 (Labeled page label) @ fix_links rest"
proof -
  let ?S = "str ''[['' @ page @ str ''|'' @ label @ str '']]''"
  let ?F = "str ''[[file:'' @ page @ str ''.org]['' @ label @ str '']]''"
  let ?desc = "\<lambda>m. str ''[[file:'' @ group m 1 @ str ''.org]['' @ group m 2 @ str '']]''"
  have wf: "page \<noteq> []" "set page \<inter> set (str '']|'') = {}" "91 \<notin> set page"
    "label \<noteq> []" "set label \<inter> set (str '']'') = {}" "91 \<notin> set label"
    "set page \<inter> set (str '']|['') = {}"
    using assms(1) by (auto simp: str_def)
  note cl = clean_beforeD[OF assms(2)]
  have A: "(p = [] \<or> (last p \<noteq> 33 \<and> last p \<noteq> 91)) \<or> (r = [] \<or> hd r \<noteq> 91)" for r :: ustring
    using cl by auto
  have B: "p = [] \<or> last p \<noteq> 91 \<or> r = [] \<or> hd r \<noteq> 91" for r :: ustring
    using cl by auto
  have e: "re_sub EMBED_RE f (p @ ?S @ r) = p @ ?S @ re_sub EMBED_RE f r" for f r
  proof -
    let ?t = "page @ str ''|'' @ label @ str '']]''"
    have "re_sub EMBED_RE f (str ''[['' @ (?t @ r)) = str ''[['' @ re_sub EMBED_RE f (?t @ r)"
      by (intro re_sub_skip_chars) (auto simp: str_def EMBED_first)
    moreover have "re_sub EMBED_RE f (?t @ r) = ?t @ re_sub EMBED_RE f r"
      using wf(3,6) by (intro EMBED_skip) (auto simp: str_def)
    moreover have "re_sub EMBED_RE f (p @ (?S @ r)) = p @ re_sub EMBED_RE f (?S @ r)"
      by (rule EMBED_skip_plain[OF cl(1) A])
    ultimately show ?thesis by simp
  qed
  have d: "re_sub WIKI_DESC_RE ?desc (p @ ?S @ r) = p @ ?F @ re_sub WIKI_DESC_RE ?desc r" for r
  proof -
    have "re_sub WIKI_DESC_RE ?desc (?S @ r) = ?desc [?S, page, label] @ re_sub WIKI_DESC_RE ?desc r"
      using WIKI_DESC_match[OF wf(1,2,4,5), of r]
      by (intro re_sub_match) (simp_all add: group_def str_def)
    moreover have "re_sub WIKI_DESC_RE ?desc (p @ (?S @ r)) = p @ re_sub WIKI_DESC_RE ?desc (?S @ r)"
      by (rule re_sub_skip_plain[OF WIKI_DESC_first WIKI_DESC_second cl(1) B])
    ultimately show ?thesis
      by (simp add: group_def)
  qed
  have s: "re_sub WIKI_SIMPLE_RE f (p @ ?F @ r) = p @ ?F @ re_sub WIKI_SIMPLE_RE f r" for f r
  proof -
    let ?u = "str ''file:'' @ page @ str ''.org''"
    have u: "?u \<noteq> []" "91 \<notin> set ?u" "set ?u \<inter> set (str '']|['') = {}"
      using wf(7) by (auto simp: str_def)
    have whole: "WIKI_SIMPLE_RE (str ''[['' @ ?u @ str '']['' @ label @ str '']]'' @ r) = None"
      by (rule WIKI_SIMPLE_two_part[OF u(3)])
    have "re_sub WIKI_SIMPLE_RE f (str ''[['' @ ?u @ str '']['' @ label @ str '']]'' @ r) =
          str ''[['' @ ?u @ str '']['' @ label @ str '']]'' @ re_sub WIKI_SIMPLE_RE f r"
      using WIKI_SIMPLE_first WIKI_SIMPLE_second(1) whole u(1,2) wf(6) by (rule re_sub_two_part)
    then have "re_sub WIKI_SIMPLE_RE f (?F @ r) = ?F @ re_sub WIKI_SIMPLE_RE f r"
      by (simp add: str_def)
    moreover have "re_sub WIKI_SIMPLE_RE f (p @ (?F @ r)) = p @ re_sub WIKI_SIMPLE_RE f (?F @ r)"
      by (rule re_sub_skip_plain[OF WIKI_SIMPLE_first WIKI_SIMPLE_second cl(1) B])
    ultimately show ?thesis
      by simp
  qed
  show ?thesis
    unfolding fix_links_def Let_def link_source.simps link_pass1.simps
    by (simp only: e d s)
qed

subsection \<open>An embed after plain text\<close>

lemma attachment_ref_plain:
  assumes "set name \<inter> set (str '']|'') = {}" and "\<not> double_bracket name"
  shows "\<not> double_bracket (str ''file:../attachments/'' @ name @ str '']]'')"
    "last (str ''file:../attachments/'' @ name @ str '']]'') \<noteq> 91"
  using assms by (auto simp: double_bracket_append str_def double_bracket_Cons)

lemma attachment_ref_desc_general:
  assumes "set name \<inter> set (str '']|'') = {}" and "\<not> double_bracket name"
  shows "re_sub WIKI_DESC_RE f ((str ''[[file:../attachments/'' @ name @ str '']]'') @ rest) =
         (str ''[[file:../attachments/'' @ name @ str '']]'') @ re_sub WIKI_DESC_RE f rest"
proof -
  let ?q = "str ''file:../attachments/'' @ name"
  let ?t = "?q @ str '']]''"
  have q: "set ?q \<inter> set (str '']|'') = {}" using assms(1) by (auto simp: str_def)
  have "WIKI_DESC_RE (str ''[['' @ ?q @ str '']'' @ str '']'' @ rest) = None"
    by (rule WIKI_DESC_unlabeled[OF q])
  then have w: "WIKI_DESC_RE (91 # 91 # ?t @ rest) = None"
    by (simp add: str_def)
  have s: "WIKI_DESC_RE (91 # ?t @ rest) = None"
    by (simp add: str_def WIKI_DESC_second)
  have "re_sub WIKI_DESC_RE f (?t @ rest) = ?t @ re_sub WIKI_DESC_RE f rest"
    using attachment_ref_plain[OF assms]
    by (intro re_sub_skip_plain[OF WIKI_DESC_first WIKI_DESC_second]) simp_all
  then have "re_sub WIKI_DESC_RE f (91 # 91 # ?t @ rest) = 91 # 91 # ?t @ re_sub WIKI_DESC_RE f rest"
    using w s by simp
  then show ?thesis by (simp add: str_def)
qed

lemma WIKI_SIMPLE_bracket_inside:
  assumes "91 \<in> set name" and "set name \<inter> set (str '']|'') = {}"
  shows "WIKI_SIMPLE_RE (str ''[[file:../attachments/'' @ name @ rest) = None"
proof -
  let ?a = "takeWhile (\<lambda>c. c \<notin> set (str '']|['')) (str ''file:../attachments/'' @ name)"
  let ?b = "dropWhile (\<lambda>c. c \<notin> set (str '']|['')) (str ''file:../attachments/'' @ name)"
  have "\<exists>c \<in> set (str ''file:../attachments/'' @ name). \<not> c \<notin> set (str '']|['')"
    using assms(1) by (auto simp: str_def)
  then have b: "?b \<noteq> []" "\<not> hd ?b \<notin> set (str '']|['')"
    using hd_dropWhile[of "\<lambda>c. c \<notin> set (str '']|['')" "str ''file:../attachments/'' @ name"]
    by (auto simp: dropWhile_eq_Nil_conv)
  have "plus_greedy (\<lambda>c. c \<notin> set (str '']|['')) (lit (str '']]'') Some) (?a @ (?b @ rest)) = None"
  proof (rule plus_greedy_run_fail)
    show "\<forall>x\<in>set ?a. x \<notin> set (str '']|['')" by (auto dest: set_takeWhileD)
    show "?b @ rest = [] \<or> \<not> hd (?b @ rest) \<notin> set (str '']|['')" using b by simp
    show "lit (str '']]'') Some (?b @ rest) = None"
    proof -
      obtain x xs where x: "?b = x # xs" using b(1) by (cases ?b) auto
      then have "x \<in> set (str ''file:../attachments/'' @ name)"
        by (metis list.set_intros(1) set_dropWhileD)
      moreover have "x \<in> set (str '']|['')" using b(2) x by simp
      ultimately have "x = 91" using assms(2) by (auto simp: str_def)
      then show ?thesis using x by (simp add: str_def)
    qed
    show "\<And>c s. c \<notin> set (str '']|['') \<Longrightarrow> lit (str '']]'') Some (c # s) = None"
      by (simp add: str_def)
  qed
  then have "plus_greedy (\<lambda>c. c \<notin> set (str '']|['')) (lit (str '']]'') Some)
        ((str ''file:../attachments/'' @ name) @ rest) = None"
    by (metis append.assoc takeWhile_dropWhile_id)
  moreover have "str ''[[file:../attachments/'' @ name @ rest =
        str ''[['' @ (str ''file:../attachments/'' @ name) @ rest"
    by (simp add: str_def)
  ultimately show ?thesis
    unfolding WIKI_SIMPLE_RE_def by (simp only: lit_append append.assoc) simp
qed

lemma attachment_ref_simple_general:
  assumes "set name \<inter> set (str '']|'') = {}" and "\<not> double_bracket name"
  shows "re_sub WIKI_SIMPLE_RE simple_repl
           ((str ''[[file:../attachments/'' @ name @ str '']]'') @ rest) =
         (str ''[[file:../attachments/'' @ name @ str '']]'') @
         re_sub WIKI_SIMPLE_RE simple_repl rest"
proof (cases "91 \<in> set name")
  case False
  then have "set name \<inter> set (str '']|['') = {}" using assms(1) by (auto simp: str_def)
  then show ?thesis using attachment_ref_simple[of name "[]" rest] by simp
next
  case True
  let ?t = "str ''file:../attachments/'' @ name @ str '']]''"
  have w: "WIKI_SIMPLE_RE (91 # 91 # ?t @ rest) = None"
    using WIKI_SIMPLE_bracket_inside[OF True assms(1), of "str '']]'' @ rest"]
    by (simp add: str_def)
  have s: "WIKI_SIMPLE_RE (91 # ?t @ rest) = None"
    by (simp add: str_def WIKI_SIMPLE_second)
  have "re_sub WIKI_SIMPLE_RE simple_repl (?t @ rest) = ?t @ re_sub WIKI_SIMPLE_RE simple_repl rest"
    using attachment_ref_plain[OF assms]
    by (intro re_sub_skip_plain[OF WIKI_SIMPLE_first WIKI_SIMPLE_second]) simp_all
  then have "re_sub WIKI_SIMPLE_RE simple_repl (91 # 91 # ?t @ rest) =
        91 # 91 # ?t @ re_sub WIKI_SIMPLE_RE simple_repl rest"
    using w s by simp
  then show ?thesis by (simp add: str_def)
qed

lemma embed_pass1:
  assumes "well_formed (Embed name hint)" and "clean_before (Embed name hint) p"
  shows "fix_links (p @ link_source (Embed name hint) @ rest) =
         p @ link_pass1 (Embed name hint) @ fix_links rest"
proof -
  let ?F = "str ''[[file:../attachments/'' @ name @ str '']]''"
  have wf: "name \<noteq> []" "set name \<inter> set (str '']|'') = {}" "\<not> double_bracket name"
    "case hint of None \<Rightarrow> True | Some h \<Rightarrow> set h \<inter> set (str '']'') = {}"
    using assms(1) by auto
  note cl = clean_beforeD[OF assms(2)]
  have B: "p = [] \<or> last p \<noteq> 91 \<or> r = [] \<or> hd r \<noteq> 91" for r :: ustring
    using cl by auto
  have e: "re_sub EMBED_RE embed_repl (p @ embed_syntax name hint @ r) =
        p @ ?F @ re_sub EMBED_RE embed_repl r" for r
  proof -
    have h: "hd (embed_syntax name hint @ r) \<noteq> 91"
      by (cases hint) (simp_all add: embed_syntax_def str_def)
    have "re_sub EMBED_RE embed_repl (p @ (embed_syntax name hint @ r)) =
          p @ re_sub EMBED_RE embed_repl (embed_syntax name hint @ r)"
      using cl(1) h by (intro EMBED_skip_plain) auto
    then show ?thesis
      using embed_step[OF wf(1,2,4), of "[]" r] by simp
  qed
  have d: "re_sub WIKI_DESC_RE f (p @ ?F @ r) = p @ ?F @ re_sub WIKI_DESC_RE f r" for f r
  proof -
    have "re_sub WIKI_DESC_RE f (p @ (?F @ r)) = p @ re_sub WIKI_DESC_RE f (?F @ r)"
      by (rule re_sub_skip_plain[OF WIKI_DESC_first WIKI_DESC_second cl(1) B])
    then show ?thesis
      using attachment_ref_desc_general[OF wf(2,3), of f r] by simp
  qed
  have s: "re_sub WIKI_SIMPLE_RE simple_repl (p @ ?F @ r) =
        p @ ?F @ re_sub WIKI_SIMPLE_RE simple_repl r" for r
  proof -
    have "re_sub WIKI_SIMPLE_RE simple_repl (p @ (?F @ r)) =
          p @ re_sub WIKI_SIMPLE_RE simple_repl (?F @ r)"
      by (rule re_sub_skip_plain[OF WIKI_SIMPLE_first WIKI_SIMPLE_second cl(1) B])
    then show ?thesis
      using attachment_ref_simple_general[OF wf(2,3), of r] by simp
  qed
  show ?thesis
    unfolding fix_links_def Let_def link_source.simps link_pass1.simps
    by (simp only: e d s)
qed

subsection \<open>A document of links\<close>

lemma link_pass1_step:
  assumes "well_formed l" and "clean_before l p"
  shows "fix_links (p @ link_source l @ rest) = p @ link_pass1 l @ fix_links rest"
  using assms by (cases l) (simp_all only: wiki_pass1 labeled_pass1 embed_pass1)

lemma doc_pass1_links:
  "doc_ok d \<Longrightarrow> fix_links (doc_source d @ rest) = doc_pass1 d @ fix_links rest"
proof (induction d)
  case Nil
  then show ?case by simp
next
  case (Cons a d)
  obtain p l where a: "a = (p, l)" by (cases a)
  have ok: "clean_before l p" "well_formed l" "doc_ok d"
    using Cons.prems a by (simp_all add: doc_ok_def)
  have "fix_links (p @ link_source l @ (doc_source d @ rest)) =
        p @ link_pass1 l @ fix_links (doc_source d @ rest)"
    by (rule link_pass1_step[OF ok(2,1)])
  then show ?case using Cons.IH[OF ok(3)] a by simp
qed

section \<open>The links of a document under pass 1\<close>




subsection \<open>A bare link after plain text, in pass 2\<close>

lemma relink_bare_link_plain:
  assumes "page \<noteq> []" and "set page \<inter> set (str '']|['') = {}"
    and "\<not> prefix (str ''file:'') page"
    and "\<not> double_bracket p" and "p = [] \<or> last p \<noteq> 91"
  shows "relink nodes (p @ (str ''[['' @ page @ str '']]'') @ rest) =
         p @ repl_bare nodes [str ''[['' @ page @ str '']]'', page] @ relink nodes rest"
proof -
  let ?L = "str ''[['' @ page @ str '']]''"
  have pg: "91 \<notin> set page" using assms(2) by (auto simp: str_def)
  have B: "p = [] \<or> last p \<noteq> 91 \<or> r = [] \<or> hd r \<noteq> 91" for r :: ustring
    using assms(5) by auto
  have f: "re_sub FILE_LINK_RE g (p @ ?L @ r) = p @ ?L @ re_sub FILE_LINK_RE g r" for g r
  proof -
    have "re_sub FILE_LINK_RE g (p @ (?L @ r)) = p @ re_sub FILE_LINK_RE g (?L @ r)"
      by (rule re_sub_skip_plain[OF FILE_LINK_first FILE_LINK_second assms(4) B])
    then show ?thesis
      using bare_link_file_step[OF assms(1) pg assms(3), of "[]" g r] by simp
  qed
  have b: "re_sub BARE_LINK_RE (repl_bare nodes) (p @ ?L @ r) =
        p @ repl_bare nodes [?L, page] @ re_sub BARE_LINK_RE (repl_bare nodes) r" for r
  proof -
    have "re_sub BARE_LINK_RE (repl_bare nodes) (p @ (?L @ r)) =
          p @ re_sub BARE_LINK_RE (repl_bare nodes) (?L @ r)"
      by (rule re_sub_skip_plain[OF BARE_LINK_first BARE_LINK_second assms(4) B])
    then show ?thesis
      using bare_link_bare_step[OF assms(1,2), of "[]" nodes r] by simp
  qed
  show ?thesis
    unfolding relink_def Let_def by (simp only: f b)
qed




section \<open>Links that stay unresolved\<close>

lemma registry_one:
  "assign_nodes Map.empty [(str ''v1.0  notes.md'', str ''0F3A'')] = [str ''v1.0 notes'' \<mapsto> str ''0F3A'']"
  by (simp add: text_defs regex_defs link_defs name_suffix_def with_suffix_org_def)

lemma registry_two:
  "assign_nodes Map.empty [(str ''v1.0 notes.md'', str ''0A''), (str ''v1.0  notes.md'', str ''0B'')] =
     [str ''v1.0 notes'' \<mapsto> str ''0B'']"
  by (simp add: text_defs regex_defs link_defs name_suffix_def with_suffix_org_def)

lemma registry_B:
  "assign_nodes Map.empty [(str ''B.md'', str ''0F3A'')] = [str ''B'' \<mapsto> str ''0F3A'']"
  by (simp add: text_defs regex_defs link_defs name_suffix_def with_suffix_org_def)

text \<open>
  Claim C1: a wiki link \<open>[[Page]]\<close> to a registered document ends, after pass 1 and
  pass 2, as an identifier reference, never as a file reference. The program does not
  achieve this for a link that follows an embed on the same line. With the document
  \<open>B.md\<close> registered, pass 1 turns \<open>![[img.png]] and see [[B]]\<close> into
  \<open>[[file:../attachments/img.png]] and see [[file:B.org][B]]\<close>; in pass 2 the file-link
  pattern matches from the file reference of the embed, which has no label, up to the end
  of the file reference of the link (its lazy first group runs over
  \<open>../attachments/img.png]] and see [[file:B.org\<close>), \<open>repl_file\<close> finds no document of that
  name and returns the whole match, and the scan goes on after it: the link to \<open>B\<close> stays a
  file reference. The same link without the embed before it is resolved.
\<close>

theorem wiki_link_after_embed_unresolved:
  "relink (assign_nodes Map.empty [(str ''B.md'', str ''0F3A'')])
     (fix_links (str ''![[img.png]] and see [[B]]'')) =
   str ''[[file:../attachments/img.png]] and see [[file:B.org][B]]'' \<and>
   relink (assign_nodes Map.empty [(str ''B.md'', str ''0F3A'')])
     (fix_links (str ''see [[B]]'')) =
   str ''see [[id:0F3A][B]]''"
  unfolding registry_B
  by (simp add: text_defs regex_defs link_defs)

theorem wiki_link_after_embed_unresolved_witness:
  "relink (assign_nodes Map.empty [(str ''B.md'', str ''0F3A'')])
     (fix_links (str ''![[img.png]] and see [[B]]'')) \<noteq>
   str ''[[file:../attachments/img.png]] and see [[id:0F3A][B]]''"
proof -
  have a: "relink (assign_nodes Map.empty [(str ''B.md'', str ''0F3A'')])
     (fix_links (str ''![[img.png]] and see [[B]]'')) =
     str ''[[file:../attachments/img.png]] and see [[file:B.org][B]]''"
    using wiki_link_after_embed_unresolved by blast
  have b: "str ''[[file:../attachments/img.png]] and see [[file:B.org][B]]'' \<noteq>
     str ''[[file:../attachments/img.png]] and see [[id:0F3A][B]]''"
    by (simp add: str_def)
  show ?thesis unfolding a by (rule b)
qed

text \<open>
  What \<open>repl_bare\<close> does with a bare link after plain text: the key of the lookup is the
  text of the link with every no-break space replaced by a space, trimmed; runs of white
  space are not collapsed.
\<close>

lemma bare_link_lookup:
  assumes "target \<noteq> []" and "set target \<inter> set (str ''[]|'') = {}"
    and "\<not> prefix (str ''file:'') target"
    and "\<not> double_bracket p" and "p = [] \<or> last p \<noteq> of_char CHR ''[''"
  shows "relink nodes (p @ str ''[['' @ target @ str '']]'' @ post) =
           p @
           (case nodes (strip (nbsp_to_space target)) of
              None \<Rightarrow> str ''[['' @ target @ str '']]''
            | Some nid \<Rightarrow>
                if nid = [] then str ''[['' @ target @ str '']]''
                else str ''[[id:'' @ nid @ str '']['' @ nbsp_to_space target @ str '']]'') @
           relink nodes post"
proof -
  have p3: "set target \<inter> set (str '']|['') = {}"
    using assms(2) by (auto simp: str_def)
  have lp: "p = [] \<or> last p \<noteq> 91" using assms(5) by simp
  show ?thesis
    using relink_bare_link_plain[OF assms(1) p3 assms(3,4) lp, of nodes post]
    by (simp add: repl_bare_def group_def Let_def split: option.splits)
qed

text \<open>
  Claim C3: in the relink pass a bare link \<open>[[text]]\<close> is looked up under its text with
  the runs of white space collapsed to single spaces, trimmed, and replaced by an
  identifier reference if that key is in the registry. The program looks the link up
  under another key: \<open>repl_bare\<close> replaces no-break spaces and trims, but does not
  collapse runs, unlike the registry, which files every document under its collapsed
  name, and unlike \<open>repl_file\<close>. With the document \<open>v1.0  notes.md\<close> (two spaces)
  registered, the registry has the normalized text of the link \<open>[[v1.0  notes]]\<close>, yet
  the link is left as it is, written with spaces or with no-break spaces, while the
  file reference to the same document is resolved.
\<close>

theorem bare_link_run_unresolved:
  "assign_nodes Map.empty [(str ''v1.0  notes.md'', str ''0F3A'')] (normalize_key (str ''v1.0  notes'')) =
     Some (str ''0F3A'') \<and>
   relink (assign_nodes Map.empty [(str ''v1.0  notes.md'', str ''0F3A'')]) (str ''[[v1.0  notes]]'') =
     str ''[[v1.0  notes]]'' \<and>
   relink (assign_nodes Map.empty [(str ''v1.0  notes.md'', str ''0F3A'')])
     (str ''[[v1.0'' @ [NBSP, NBSP] @ str ''notes]]'') =
     str ''[[v1.0'' @ [NBSP, NBSP] @ str ''notes]]'' \<and>
   relink (assign_nodes Map.empty [(str ''v1.0  notes.md'', str ''0F3A'')])
     (str ''[[file:v1.0  notes.org][v1.0  notes]]'') =
     str ''[[id:0F3A][v1.0  notes]]''"
  unfolding registry_one
  by (simp add: text_defs regex_defs link_defs)

theorem bare_link_run_unresolved_witness:
  "relink (assign_nodes Map.empty [(str ''v1.0  notes.md'', str ''0F3A'')]) (str ''[[v1.0  notes]]'') \<noteq>
     str ''[[id:0F3A][v1.0  notes]]''"
proof -
  have a: "relink (assign_nodes Map.empty [(str ''v1.0  notes.md'', str ''0F3A'')])
     (str ''[[v1.0  notes]]'') = str ''[[v1.0  notes]]''"
    using bare_link_run_unresolved by blast
  have b: "str ''[[v1.0  notes]]'' \<noteq> str ''[[id:0F3A][v1.0  notes]]''"
    by (simp add: str_def)
  show ?thesis unfolding a by (rule b)
qed

text \<open>
  Claim C4: the registry holds one entry per normalized name, a later document
  overwrites an earlier one of the same normalized name, and so every link to that name
  resolves to the identifier of the last one. The registry is as the claim says: the
  documents \<open>v1.0 notes.md\<close> and \<open>v1.0  notes.md\<close>, written differently, share the one
  entry \<open>v1.0 notes\<close>, which holds the identifier of the later document, and the link
  \<open>[[v1.0 notes]]\<close> resolves to it. But the link \<open>[[v1.0  notes]]\<close>, written as the later
  document is named, does not: \<open>repl_bare\<close> looks it up without collapsing the run, as
  shown above for a single document, and leaves it unresolved.
\<close>

theorem colliding_names_link_unresolved:
  "assign_nodes Map.empty [(str ''v1.0 notes.md'', str ''0A''), (str ''v1.0  notes.md'', str ''0B'')] =
     [str ''v1.0 notes'' \<mapsto> str ''0B''] \<and>
   relink (assign_nodes Map.empty [(str ''v1.0 notes.md'', str ''0A''), (str ''v1.0  notes.md'', str ''0B'')])
     (str ''[[v1.0 notes]]'') = str ''[[id:0B][v1.0 notes]]'' \<and>
   relink (assign_nodes Map.empty [(str ''v1.0 notes.md'', str ''0A''), (str ''v1.0  notes.md'', str ''0B'')])
     (str ''[[v1.0  notes]]'') = str ''[[v1.0  notes]]''"
  unfolding registry_two
  by (simp add: text_defs regex_defs link_defs)

theorem colliding_names_link_unresolved_witness:
  "relink (assign_nodes Map.empty [(str ''v1.0 notes.md'', str ''0A''), (str ''v1.0  notes.md'', str ''0B'')])
     (str ''[[v1.0  notes]]'') \<noteq> str ''[[id:0B][v1.0  notes]]''"
proof -
  have a: "relink (assign_nodes Map.empty [(str ''v1.0 notes.md'', str ''0A''), (str ''v1.0  notes.md'', str ''0B'')])
     (str ''[[v1.0  notes]]'') = str ''[[v1.0  notes]]''"
    using colliding_names_link_unresolved by blast
  have b: "str ''[[v1.0  notes]]'' \<noteq> str ''[[id:0B][v1.0  notes]]''"
    by (simp add: str_def)
  show ?thesis unfolding a by (rule b)
qed

section \<open>Relinking twice\<close>




lemma re_sub_no_match:
  assumes "\<And>zs. zs \<noteq> [] \<Longrightarrow> suffix zs doc \<Longrightarrow> re zs = None"
  shows "re_sub re repl doc = doc"
  using re_sub_skip[of doc re "[]" repl] assms by simp

lemma has_link_suffix:
  assumes "\<not> has_link doc" and "zs \<noteq> []" and "suffix zs doc"
  shows "FILE_LINK_RE zs = None \<and> BARE_LINK_RE zs = None"
  using assms
proof (induction doc)
  case Nil
  then show ?case by simp
next
  case (Cons c doc)
  then show ?case by (auto simp: suffix_Cons)
qed

text \<open>
  Claim C6. On a text without links (neither pattern of pass 2 matches at any position
  of it), the relink transform changes nothing, so applying it twice gives the same
  text as applying it once.
\<close>

theorem relink_idempotent_without_links:
  assumes "\<not> has_link doc"
  shows "relink nodes doc = doc \<and> relink nodes (relink nodes doc) = relink nodes doc"
proof -
  have f: "re_sub FILE_LINK_RE (repl_file nodes) doc = doc"
    using has_link_suffix[OF assms] by (intro re_sub_no_match) simp
  have b: "re_sub BARE_LINK_RE (repl_bare nodes) doc = doc"
    using has_link_suffix[OF assms] by (intro re_sub_no_match) simp
  have "relink nodes doc = doc"
    by (simp add: relink_def f b)
  then show ?thesis by simp
qed

theorem relink_idempotent_without_links_witness:
  "relink [str ''B'' \<mapsto> str ''0F3A''] (str ''Hello [world]'') = str ''Hello [world]'' \<and>
   relink [str ''B'' \<mapsto> str ''0F3A''] (relink [str ''B'' \<mapsto> str ''0F3A''] (str ''Hello [world]'')) =
     relink [str ''B'' \<mapsto> str ''0F3A''] (str ''Hello [world]'')"
proof -
  have h: "\<not> has_link (str ''Hello [world]'')"
    by (simp add: text_defs regex_defs link_defs)
  show ?thesis
    using relink_idempotent_without_links[OF h, of "[str ''B'' \<mapsto> str ''0F3A'']"]
    by simp
qed

section \<open>The metadata header\<close>

lemma universal_newlines_id: "CR \<notin> set s \<Longrightarrow> universal_newlines s = s"
  by (induction s rule: universal_newlines.induct) auto

lemma encodable_append [simp]: "encodable (a @ b) \<longleftrightarrow> encodable a \<and> encodable b"
  by (simp add: encodable_def)

lemma encodable_str [simp]: "encodable (str s)"
proof -
  have "c < 256" if "c \<in> set (str s)" for c
  proof -
    from that obtain x :: char where "c = of_char x" by (auto simp: str_def)
    moreover have "(of_char x :: nat) mod 256 < 256" by simp
    ultimately show ?thesis by simp
  qed
  then show ?thesis
    by (fastforce simp: encodable_def list_all_iff is_surrogate_def)
qed

lemma read_text_written:
  "encodable body \<Longrightarrow> CR \<notin> set body \<Longrightarrow> read_text (files(path \<mapsto> body)) path = Inr body"
  by (simp add: read_text_def universal_newlines_id)

text \<open>Pass 2 copies plain text and rewrites what follows it on its own.\<close>

lemma relink_skip_plain:
  assumes "\<not> double_bracket p" and "p = [] \<or> last p \<noteq> 91"
  shows "relink nodes (p @ rest) = p @ relink nodes rest"
proof -
  have B: "p = [] \<or> last p \<noteq> 91 \<or> r = [] \<or> hd r \<noteq> 91" for r :: ustring
    using assms(2) by auto
  have f: "re_sub FILE_LINK_RE g (p @ r) = p @ re_sub FILE_LINK_RE g r" for g r
    by (rule re_sub_skip_plain[OF FILE_LINK_first FILE_LINK_second assms(1) B])
  have b: "re_sub BARE_LINK_RE g (p @ r) = p @ re_sub BARE_LINK_RE g r" for g r
    by (rule re_sub_skip_plain[OF BARE_LINK_first BARE_LINK_second assms(1) B])
  show ?thesis
    unfolding relink_def Let_def by (simp only: f b)
qed




text \<open>
  In general, when the stem of the file name cannot be encoded, the fourth write raises
  and the file is left with the three lines of the property block.
\<close>

lemma add_node_id_unencodable_stem:
  assumes "files org_file = Some body" and "encodable body"
    and "encodable node_id" and "\<not> encodable (path_stem org_file)"
  shows "add_node_id files org_file node_id =
         (Some UnicodeEncodeError,
          files(org_file \<mapsto>
            str '':PROPERTIES:\<newline>'' @ str '':ID: '' @ node_id @ str ''\<newline>'' @ str '':END:\<newline>''))"
  using assms by (simp add: add_node_id_def read_text_def)

end
